theory Spec2Isabelle
  imports Complex_Main "HOL-Library.Word"
begin

unbundle bit_operations_syntax

section \<open>JavaScript values\<close>

text \<open>
  A JavaScript string is a sequence of UTF-16 code units, and \<open>String.length\<close> counts
  code units. A code unit is modelled by its numeric value. Numbers (times, durations,
  audio samples) are modelled as reals. In the sequencer, where times are accumulated
  from audio durations, every quotient and sum of the program passes through a
  rounding function \<open>rd\<close>, the rounding of the exact result to an IEEE double; \<open>rd\<close> is a
  parameter of which nothing is assumed. Elsewhere rounding is not modelled.
\<close>

type_synonym jsstring = "nat list"

definition js :: "string \<Rightarrow> jsstring" where
  "js s = map of_char s"

text \<open>
  The characters removed by \<open>String.prototype.trim\<close> (WhiteSpace and LineTerminator),
  which are also the characters matched by \<open>\s\<close> in a regular expression: TAB, LF, VT,
  FF, CR, SP, NBSP, U+1680, U+2000..U+200A, U+2028, U+2029, U+202F, U+205F, U+3000 and
  U+FEFF.
\<close>

definition isSpace :: "nat \<Rightarrow> bool" where
  "isSpace c \<longleftrightarrow>
     (9 \<le> c \<and> c \<le> 13) \<or> c = 32 \<or> c = 160 \<or> c = 5760 \<or> (8192 \<le> c \<and> c \<le> 8202) \<or>
     c = 8232 \<or> c = 8233 \<or> c = 8239 \<or> c = 8287 \<or> c = 12288 \<or> c = 65279"

definition trim :: "jsstring \<Rightarrow> jsstring" where
  "trim s = rev (dropWhile isSpace (rev (dropWhile isSpace s)))"

section \<open>Script segments\<close>

datatype speaker = Host | Expert

record ScriptSegment =
  seg_id :: jsstring
  slideIndex :: nat
  speaker :: speaker
  seg_text :: jsstring
  startTime :: real
  endTime :: real

section \<open>Segment merger (first step of \<open>generateSequencedSpeech\<close>)\<close>

text \<open>
  The loop over \<open>rawSegments[1..]\<close> with the running segment \<open>current\<close>. A segment with
  the speaker and slide index of \<open>current\<close> has its text appended after one space; any
  other segment makes the loop push \<open>current\<close> and continue with a copy of that
  segment. The last \<open>current\<close> is pushed after the loop.
\<close>

fun mergeLoop :: "ScriptSegment \<Rightarrow> ScriptSegment list \<Rightarrow> ScriptSegment list" where
  "mergeLoop current [] = [current]"
| "mergeLoop current (next # rest) =
     (if speaker next = speaker current \<and> slideIndex next = slideIndex current
      then mergeLoop (current\<lparr>seg_text := seg_text current @ [32] @ seg_text next\<rparr>) rest
      else current # mergeLoop next rest)"

definition mergeSegments :: "ScriptSegment list \<Rightarrow> ScriptSegment list" where
  "mergeSegments rawSegments =
     (case rawSegments of [] \<Rightarrow> [] | first # rest \<Rightarrow> mergeLoop first rest)"

section \<open>PCM codec\<close>

text \<open>
  Encoding (the loop at the end of \<open>generateSequencedSpeech\<close>): the sample is clamped
  with \<open>Math.max(-1, Math.min(1, x))\<close>, multiplied by \<open>0x8000\<close> when negative and by
  \<open>0x7FFF\<close> otherwise, and stored into an \<open>Int16Array\<close>. The store converts with
  ToInt16: the fraction is dropped (rounding towards zero) and the integer is reduced
  modulo \<open>2 ^ 16\<close>. Decoding (\<open>decodeAudioData\<close>) divides the signed 16-bit value
  by \<open>32768.0\<close>.
\<close>

definition clampSample :: "real \<Rightarrow> real" where
  "clampSample x = max (- 1) (min 1 x)"

definition jsTruncate :: "real \<Rightarrow> int" where
  "jsTruncate r = (if r < 0 then \<lceil>r\<rceil> else \<lfloor>r\<rfloor>)"

definition toInt16 :: "real \<Rightarrow> 16 word" where
  "toInt16 r = word_of_int (jsTruncate r)"

definition encodeSample :: "real \<Rightarrow> 16 word" where
  "encodeSample x =
     (let s = clampSample x in toInt16 (if s < 0 then s * 32768 else s * 32767))"

definition decodeSample :: "16 word \<Rightarrow> real" where
  "decodeSample w = real_of_int (sint w) / 32768"

section \<open>Audio buffers\<close>

text \<open>
  A single-channel \<open>AudioBuffer\<close>: its samples and its sample rate. Its \<open>duration\<close> is
  the number of sample frames divided by the sample rate, rounded to a double.
  \<open>createBuffer\<close> of the Web Audio API refuses a length of zero with a
  NotSupportedError.
\<close>

record AudioBuffer =
  channelData :: "real list"
  sampleRate :: nat

definition duration :: "(real \<Rightarrow> real) \<Rightarrow> AudioBuffer \<Rightarrow> real" where
  "duration rd b = rd (real (length (channelData b)) / real (sampleRate b))"

record GeneratedAudio =
  buffer :: AudioBuffer
  rawData :: "8 word list"

text \<open>
  A thrown value, as far as the retry loop inspects it: \<open>error.status\<close>,
  \<open>error.error.code\<close>, the text of \<open>JSON.stringify(error)\<close>, and the message. An
  \<open>Error\<close> object created by the code itself (or a DOMException or RangeError raised by
  the platform) has no \<open>status\<close> and no \<open>error\<close> field, and \<open>JSON.stringify\<close> of it
  is \<open>{}\<close>, as its message and stack are not enumerable.
\<close>

record js_error =
  status :: "int option"
  error_code :: "int option"
  json :: jsstring
  message :: jsstring

definition Error :: "jsstring \<Rightarrow> js_error" where
  "Error msg = \<lparr>status = None, error_code = None, json = js ''{}'', message = msg\<rparr>"

definition createBuffer :: "nat \<Rightarrow> nat \<Rightarrow> js_error + AudioBuffer" where
  "createBuffer len rate =
     (if len = 0 then Inl (Error (js ''NotSupportedError''))
      else Inr \<lparr>channelData = replicate len 0, sampleRate = rate\<rparr>)"

text \<open>
  \<open>new Int16Array(data.buffer)\<close> reads the bytes in pairs, low byte first;
  \<open>new Uint8Array(rawData.buffer)\<close> is the inverse view.
\<close>

fun int16View :: "8 word list \<Rightarrow> 16 word list" where
  "int16View (lo # hi # rest) = (ucast lo OR push_bit 8 (ucast hi)) # int16View rest"
| "int16View _ = []"

definition uint8View :: "16 word list \<Rightarrow> 8 word list" where
  "uint8View ws = concat (map (\<lambda>w. [ucast w, ucast (drop_bit 8 w)]) ws)"

text \<open>
  \<open>decodeAudioData\<close> with one channel. The \<open>Int16Array\<close> constructor throws a
  RangeError when the byte length is odd.
\<close>

definition decodeAudioData :: "8 word list \<Rightarrow> nat \<Rightarrow> js_error + AudioBuffer" where
  "decodeAudioData data rate =
     (if odd (length data) then Inl (Error (js ''RangeError''))
      else (let dataInt16 = int16View data; frameCount = length dataInt16 in
        case createBuffer frameCount rate of
          Inl e \<Rightarrow> Inl e
        | Inr b \<Rightarrow> Inr (b\<lparr>channelData := map decodeSample dataInt16\<rparr>)))"

section \<open>Synthesis client: \<open>generateSingleSpeakerAudio\<close>\<close>

text \<open>
  The provider is a scripted collaborator: the outcome of the request with sequence
  number \<open>n\<close> for a prompt and a voice. A resolved response is reduced to the two
  fields the code reads from its first part: \<open>inlineData.data\<close> and \<open>text\<close>. The
  platform's base64 decoder \<open>atob\<close> is a parameter: it returns the binary string, or
  \<open>None\<close> when it throws.
\<close>

record response =
  inlineData :: "jsstring option"
  text_part :: "jsstring option"

datatype outcome = Resolved response | Rejected js_error

type_synonym provider = "nat \<Rightarrow> jsstring \<Rightarrow> jsstring \<Rightarrow> outcome"

fun startsWith :: "jsstring \<Rightarrow> jsstring \<Rightarrow> bool" where
  "startsWith s [] = True"
| "startsWith [] (p # ps) = False"
| "startsWith (c # cs) (p # ps) = (c = p \<and> startsWith cs ps)"

fun includesStr :: "jsstring \<Rightarrow> jsstring \<Rightarrow> bool" where
  "includesStr [] p = (p = [])"
| "includesStr (c # cs) p = (startsWith (c # cs) p \<or> includesStr cs p)"

definition isRateLimit :: "js_error \<Rightarrow> bool" where
  "isRateLimit e \<longleftrightarrow>
     status e = Some 429 \<or> error_code e = Some 429 \<or>
     includesStr (json e) (js ''RESOURCE_EXHAUSTED'') \<or>
     includesStr (json e) (js ''429'') \<or>
     includesStr (json e) (js ''quota'')"

definition isServerBusy :: "js_error \<Rightarrow> bool" where
  "isServerBusy e \<longleftrightarrow> status e = Some 503 \<or> status e = Some 500"

definition maxRetries :: nat where
  "maxRetries = 10"

definition promptText :: "jsstring \<Rightarrow> jsstring" where
  "promptText t = js ''Please read the following text exactly as written: \"'' @ t @ js ''\"''"

text \<open>The two errors thrown when the response has no audio payload.\<close>

definition noAudioError :: "response \<Rightarrow> js_error" where
  "noAudioError r =
     (case text_part r of
        Some textPart \<Rightarrow>
          if textPart \<noteq> []
          then Error (js ''Model returned text instead of audio: \"'' @ take 50 textPart @ js ''...\"'')
          else Error (js ''No audio data returned from API.'')
      | None \<Rightarrow> Error (js ''No audio data returned from API.''))"

text \<open>
  The body of the \<open>try\<close> block for the outcome of one request: what it returns, or
  what it throws into the \<open>catch\<close> block.
\<close>

definition readResponse :: "(jsstring \<Rightarrow> jsstring option) \<Rightarrow> outcome \<Rightarrow> js_error + GeneratedAudio" where
  "readResponse atob out =
     (case out of
        Rejected e \<Rightarrow> Inl e
      | Resolved r \<Rightarrow>
          (case inlineData r of
             None \<Rightarrow> Inl (noAudioError r)
           | Some base64Audio \<Rightarrow>
               if base64Audio = [] then Inl (noAudioError r)
               else (case atob base64Audio of
                  None \<Rightarrow> Inl (Error (js ''InvalidCharacterError''))
                | Some binaryString \<Rightarrow>
                    (let audioBytes = map word_of_nat binaryString in
                     case decodeAudioData audioBytes 24000 of
                       Inl e \<Rightarrow> Inl e
                     | Inr audioBuffer \<Rightarrow> Inr \<lparr>buffer = audioBuffer, rawData = audioBytes\<rparr>))))"

text \<open>
  The \<open>while (true)\<close> loop, with the counter \<open>attempt\<close> and the number \<open>n\<close> of
  requests issued so far; it returns the result together with the new number of
  requests. The waiting between attempts is not modelled.
\<close>

function generateLoop ::
  "provider \<Rightarrow> (jsstring \<Rightarrow> jsstring option) \<Rightarrow> jsstring \<Rightarrow> jsstring \<Rightarrow> nat \<Rightarrow> nat
     \<Rightarrow> (js_error + GeneratedAudio) \<times> nat" where
  "generateLoop P atob prompt voiceName attempt n =
     (case readResponse atob (P n prompt voiceName) of
        Inr audio \<Rightarrow> (Inr audio, Suc n)
      | Inl e \<Rightarrow>
          if (isRateLimit e \<or> isServerBusy e) \<and> Suc attempt \<le> maxRetries
          then generateLoop P atob prompt voiceName (Suc attempt) (Suc n)
          else (Inl e, Suc n))"
  by pat_completeness auto
termination
  by (relation "measure (\<lambda>(P, atob, prompt, voiceName, attempt, n). Suc maxRetries - attempt)") auto

declare generateLoop.simps [simp del]

definition generateSingleSpeakerAudio ::
  "provider \<Rightarrow> (jsstring \<Rightarrow> jsstring option) \<Rightarrow> jsstring \<Rightarrow> jsstring \<Rightarrow> nat
     \<Rightarrow> (js_error + GeneratedAudio) \<times> nat" where
  "generateSingleSpeakerAudio P atob t voiceName n = generateLoop P atob (promptText t) voiceName 0 n"

section \<open>Sequencer: \<open>generateSequencedSpeech\<close>\<close>

text \<open>
  The loop over the merged segments, with the buffers produced so far, the segments
  stamped so far, the time cursor \<open>currentOffset\<close> and the number of requests issued.
  A unit whose trimmed text is empty is skipped; a failed unit ends the loop with its
  error. The sum \<open>currentOffset + duration\<close> is the rounded sum. The pacing delay
  between calls is not modelled.
\<close>

fun sequenceLoop ::
  "(real \<Rightarrow> real) \<Rightarrow> provider \<Rightarrow> (jsstring \<Rightarrow> jsstring option) \<Rightarrow> jsstring \<Rightarrow> jsstring \<Rightarrow> ScriptSegment list
     \<Rightarrow> AudioBuffer list \<Rightarrow> ScriptSegment list \<Rightarrow> real \<Rightarrow> nat
     \<Rightarrow> (js_error + AudioBuffer list \<times> ScriptSegment list) \<times> nat" where
  "sequenceLoop rd P atob hostVoice expertVoice [] audioBuffers finalSegments currentOffset n =
     (Inr (audioBuffers, finalSegments), n)"
| "sequenceLoop rd P atob hostVoice expertVoice (segment # rest) audioBuffers finalSegments currentOffset n =
     (let t = trim (seg_text segment) in
      if t = [] then
        sequenceLoop rd P atob hostVoice expertVoice rest audioBuffers finalSegments currentOffset n
      else
        (let voiceName = (if speaker segment = Host then hostVoice else expertVoice) in
         case generateSingleSpeakerAudio P atob t voiceName n of
           (Inl e, n') \<Rightarrow> (Inl e, n')
         | (Inr audioResult, n') \<Rightarrow>
             (let d = duration rd (buffer audioResult) in
              sequenceLoop rd P atob hostVoice expertVoice rest
                (audioBuffers @ [buffer audioResult])
                (finalSegments @
                   [segment\<lparr>startTime := currentOffset, endTime := rd (currentOffset + d)\<rparr>])
                (rd (currentOffset + d)) n')))"

text \<open>
  \<open>concatenateAudioBuffers\<close>: a buffer of the total length, into which every input is
  copied at the running offset (\<open>outputData.set(inputData, offset)\<close>).
\<close>

fun copyBuffers :: "AudioBuffer list \<Rightarrow> nat \<Rightarrow> real list \<Rightarrow> real list" where
  "copyBuffers [] offset outputData = outputData"
| "copyBuffers (buf # rest) offset outputData =
     copyBuffers rest (offset + length (channelData buf))
       (take offset outputData @ channelData buf @
        drop (offset + length (channelData buf)) outputData)"

definition concatenateAudioBuffers :: "AudioBuffer list \<Rightarrow> js_error + AudioBuffer" where
  "concatenateAudioBuffers buffers =
     (let totalLength = sum_list (map (\<lambda>b. length (channelData b)) buffers) in
      case createBuffer totalLength 24000 of
        Inl e \<Rightarrow> Inl e
      | Inr result \<Rightarrow> Inr (result\<lparr>channelData := copyBuffers buffers 0 (channelData result)\<rparr>))"

definition generateSequencedSpeech ::
  "(real \<Rightarrow> real) \<Rightarrow> provider \<Rightarrow> (jsstring \<Rightarrow> jsstring option) \<Rightarrow> ScriptSegment list \<Rightarrow> jsstring \<Rightarrow> jsstring \<Rightarrow> nat
     \<Rightarrow> (js_error + GeneratedAudio \<times> ScriptSegment list) \<times> nat" where
  "generateSequencedSpeech rd P atob rawSegments hostVoice expertVoice n =
     (case sequenceLoop rd P atob hostVoice expertVoice (mergeSegments rawSegments) [] [] 0 n of
        (Inl e, n') \<Rightarrow> (Inl e, n')
      | (Inr (audioBuffers, finalSegments), n') \<Rightarrow>
          if audioBuffers = [] then (Inl (Error (js ''No audio generated.'')), n')
          else (case concatenateAudioBuffers audioBuffers of
             Inl e \<Rightarrow> (Inl e, n')
           | Inr combinedBuffer \<Rightarrow>
               (Inr (\<lparr>buffer = combinedBuffer,
                       rawData = uint8View (map encodeSample (channelData combinedBuffer))\<rparr>,
                     finalSegments), n')))"

section \<open>Exact timing of the sequencer's output\<close>

text \<open>
  Specification definitions, not part of the program. The units of a run are the
  merged segments whose trimmed text is not empty. \<open>unitAudios\<close> is the audio that the
  synthesis client returns for each unit in turn, for the unit's trimmed text and the
  voice of its speaker, each call starting at the request number at which the call
  before it ended; it fails with the first error. \<open>stamped\<close> says that the segments
  \<open>ss\<close> are the units \<open>us\<close>, in order, each with its start time at the running offset
  and its end time at the rounded sum of that offset and the duration of its buffer,
  for the buffers \<open>bs\<close> in order.
\<close>

definition speechUnits :: "ScriptSegment list \<Rightarrow> ScriptSegment list" where
  "speechUnits rawSegments = filter (\<lambda>m. trim (seg_text m) \<noteq> []) (mergeSegments rawSegments)"

fun unitAudios ::
  "provider \<Rightarrow> (jsstring \<Rightarrow> jsstring option) \<Rightarrow> jsstring \<Rightarrow> jsstring \<Rightarrow> ScriptSegment list \<Rightarrow> nat
     \<Rightarrow> (js_error + GeneratedAudio list) \<times> nat" where
  "unitAudios P atob hostVoice expertVoice [] n = (Inr [], n)"
| "unitAudios P atob hostVoice expertVoice (u # us) n =
     (case generateSingleSpeakerAudio P atob (trim (seg_text u))
             (if speaker u = Host then hostVoice else expertVoice) n of
        (Inl e, k) \<Rightarrow> (Inl e, k)
      | (Inr a, k) \<Rightarrow>
          (case unitAudios P atob hostVoice expertVoice us k of
             (Inl e, k') \<Rightarrow> (Inl e, k')
           | (Inr later, k') \<Rightarrow> (Inr (a # later), k')))"

fun stamped ::
  "(real \<Rightarrow> real) \<Rightarrow> real \<Rightarrow> ScriptSegment list \<Rightarrow> ScriptSegment list \<Rightarrow> AudioBuffer list \<Rightarrow> bool" where
  "stamped rd off [] [] [] = True"
| "stamped rd off (u # us) (s # ss) (b # bs) =
     (s = u\<lparr>startTime := off, endTime := rd (off + duration rd b)\<rparr>
      \<and> stamped rd (rd (off + duration rd b)) us ss bs)"
| "stamped rd off _ _ _ = False"

section \<open>Playback synchronizer: \<open>updateSync\<close>\<close>

text \<open>
  The audio element as \<open>updateSync\<close> reads it (its \<open>duration\<close> is \<open>None\<close> when it is
  NaN), and the part of the component state that \<open>updateSync\<close> writes.
\<close>

record audio_element =
  paused :: bool
  elemCurrentTime :: real
  elemDuration :: "real option"

record sync_state =
  currentTime :: real
  audioDuration :: real
  activeSegmentIndex :: int
  activeSlideIndex :: nat

text \<open>\<open>Array.prototype.findIndex\<close>: the first index whose element passes, or \<open>-1\<close>.\<close>

fun findIndexFrom :: "('a \<Rightarrow> bool) \<Rightarrow> 'a list \<Rightarrow> nat \<Rightarrow> int" where
  "findIndexFrom p [] k = - 1"
| "findIndexFrom p (x # xs) k = (if p x then int k else findIndexFrom p xs (Suc k))"

definition findIndex :: "('a \<Rightarrow> bool) \<Rightarrow> 'a list \<Rightarrow> int" where
  "findIndex p xs = findIndexFrom p xs 0"

text \<open>
  One run of \<open>updateSync\<close> (the scheduling of the next animation frame is not
  modelled). Without an audio element, or with a paused one, nothing is written. When
  no segment contains \<open>t\<close> and \<open>t\<close> is before the end of the last segment, the active
  segment and slide are not written.
\<close>

definition updateSync :: "ScriptSegment list \<Rightarrow> audio_element option \<Rightarrow> sync_state \<Rightarrow> sync_state" where
  "updateSync segments audioElem st =
     (case audioElem of
        None \<Rightarrow> st
      | Some el \<Rightarrow>
          if paused el then st
          else
            (let t = elemCurrentTime el;
                 st1 = st\<lparr>currentTime := t,
                          audioDuration := (case elemDuration el of None \<Rightarrow> 0 | Some d \<Rightarrow> d)\<rparr>;
                 foundIndex = findIndex (\<lambda>seg. t \<ge> startTime seg \<and> t < endTime seg) segments
             in if foundIndex \<noteq> - 1 then
                  st1\<lparr>activeSegmentIndex := foundIndex,
                      activeSlideIndex := slideIndex (segments ! nat foundIndex)\<rparr>
                else if length segments > 0 \<and> t \<ge> endTime (segments ! (length segments - 1)) then
                  st1\<lparr>activeSegmentIndex := int (length segments) - 1,
                      activeSlideIndex := slideIndex (segments ! (length segments - 1))\<rparr>
                else st1))"

section \<open>Script segmenter: \<open>parseScriptToSegments\<close>\<close>

subsection \<open>Regular expression matching\<close>

text \<open>
  The three regular expressions with the \<open>i\<close> flag compare every literal character
  after canonicalization: a character is replaced by its upper-case form when that form
  is a single code unit, except that a character outside ASCII is never mapped into
  ASCII. Inside ASCII only the letters \<open>a\<close>..\<open>z\<close> change. The upper-case conversion of
  the characters outside ASCII is a table of the platform, taken as the parameter
  \<open>uc\<close>. Canonicalization leaves white space, digits and colons alone and maps no other
  character to one of them, so the classes \<open>\s\<close>, \<open>\d\<close> and \<open>[:\<dots>]\<close> are tested on the
  character itself.
\<close>

definition canonicalize :: "(nat \<Rightarrow> nat list) \<Rightarrow> nat \<Rightarrow> nat" where
  "canonicalize uc ch =
     (if ch < 128 then (if 97 \<le> ch \<and> ch \<le> 122 then ch - 32 else ch)
      else (case uc ch of [cu] \<Rightarrow> if cu < 128 then ch else cu | _ \<Rightarrow> ch))"

definition isDigit :: "nat \<Rightarrow> bool" where
  "isDigit c \<longleftrightarrow> 48 \<le> c \<and> c \<le> 57"

text \<open>A sequence of literal characters at the start of \<open>s\<close>: the rest of \<open>s\<close> after it.\<close>

fun matchChars :: "(nat \<Rightarrow> nat list) \<Rightarrow> jsstring \<Rightarrow> jsstring \<Rightarrow> jsstring option" where
  "matchChars uc [] s = Some s"
| "matchChars uc (p # ps) [] = None"
| "matchChars uc (p # ps) (c # cs) =
     (if canonicalize uc p = canonicalize uc c then matchChars uc ps cs else None)"

text \<open>
  Backtracking: a quantifier or an alternative offers its ways to match in the order
  of the matcher's preference, and the first way for which the rest of the pattern
  matches is taken.
\<close>

fun firstSome :: "('a \<Rightarrow> 'b option) \<Rightarrow> 'a list \<Rightarrow> 'b option" where
  "firstSome f [] = None"
| "firstSome f (x # xs) = (case f x of Some y \<Rightarrow> Some y | None \<Rightarrow> firstSome f xs)"

text \<open>\<open>(?:\*\*)?\<close>: with the two stars first, then without.\<close>

definition optStars :: "(nat \<Rightarrow> nat list) \<Rightarrow> jsstring \<Rightarrow> jsstring list" where
  "optStars uc s = (case matchChars uc (js ''**'') s of Some r \<Rightarrow> [r, s] | None \<Rightarrow> [s])"

text \<open>
  A greedy \<open>+\<close> over a character class: every non-empty run of class characters at the
  start of \<open>s\<close>, the longest first, each with the rest of \<open>s\<close> after it.
\<close>

fun plusRests :: "(nat \<Rightarrow> bool) \<Rightarrow> jsstring \<Rightarrow> (jsstring \<times> jsstring) list" where
  "plusRests p [] = []"
| "plusRests p (c # cs) =
     (if p c then map (\<lambda>(m, r). (c # m, r)) (plusRests p cs) @ [([c], cs)] else [])"

text \<open>
  \<open>/\[(?:\*\*)?SLIDE\s+(\d+)(?:\*\*)?\]/i\<close> at the start of \<open>s\<close>: the captured digits
  and the rest of \<open>s\<close> after the match.
\<close>

definition matchSlideMarker :: "(nat \<Rightarrow> nat list) \<Rightarrow> jsstring \<Rightarrow> (jsstring \<times> jsstring) option" where
  "matchSlideMarker uc s =
     (case matchChars uc (js ''['') s of
        None \<Rightarrow> None
      | Some s1 \<Rightarrow>
          firstSome (\<lambda>s2.
            case matchChars uc (js ''SLIDE'') s2 of
              None \<Rightarrow> None
            | Some s3 \<Rightarrow>
                firstSome (\<lambda>(ws, s4).
                  firstSome (\<lambda>(digits, s5).
                    firstSome (\<lambda>s6.
                      case matchChars uc (js '']'') s6 of
                        None \<Rightarrow> None
                      | Some rest \<Rightarrow> Some (digits, rest))
                    (optStars uc s5))
                  (plusRests isDigit s4))
                (plusRests isSpace s3))
          (optStars uc s1))"

text \<open>
  \<open>^(?:\*\*)?(?:Host|name)(?:\*\*)?[:\<dots>]\<close> with the \<open>i\<close> flag, where the class holds the
  colon and the full-width colon U+FF1A, and \<open>name\<close> stands for the escaped display
  name, which matches the name literally: the rest of \<open>s\<close> after the match, which is
  what \<open>replace(regex, '')\<close> leaves.
\<close>

definition matchLabel :: "(nat \<Rightarrow> nat list) \<Rightarrow> jsstring \<Rightarrow> jsstring \<Rightarrow> jsstring \<Rightarrow> jsstring option" where
  "matchLabel uc keyword name s =
     firstSome (\<lambda>s1.
       firstSome (\<lambda>s2.
         firstSome (\<lambda>s3.
           case s3 of
             [] \<Rightarrow> None
           | c # rest \<Rightarrow> if c = 58 \<or> c = 65306 then Some rest else None)
         (optStars uc s2))
       (List.map_filter (\<lambda>alt. matchChars uc alt s1) [keyword, name]))
     (optStars uc s)"

subsection \<open>Splitting\<close>

lemma matchChars_length:
  "matchChars uc p s = Some r \<Longrightarrow> length r + length p = length s"
  by (induction uc p s rule: matchChars.induct) (auto split: if_splits)

lemma firstSome_Some:
  "firstSome f xs = Some y \<Longrightarrow> \<exists>x\<in>set xs. f x = Some y"
  by (induction xs) (auto split: option.splits)

lemma optStars_length: "r \<in> set (optStars uc s) \<Longrightarrow> length r \<le> length s"
  by (auto simp: optStars_def split: option.splits dest: matchChars_length)

lemma plusRests_length: "(m, r) \<in> set (plusRests p s) \<Longrightarrow> length r < length s"
  by (induction s arbitrary: m r) (fastforce split: if_splits)+

lemma matchSlideMarker_shorter:
  assumes "matchSlideMarker uc s = Some (digits, rest)"
  shows "length rest < length s"
proof -
  from assms obtain s1 where s1: "matchChars uc (js ''['') s = Some s1"
    by (auto simp: matchSlideMarker_def split: option.splits)
  then have "length s1 < length s"
    using matchChars_length [OF s1] by (simp add: js_def)
  moreover from assms s1 obtain s2 s3 ws s4 d s5 s6 where
      "s2 \<in> set (optStars uc s1)" "matchChars uc (js ''SLIDE'') s2 = Some s3"
      "(ws, s4) \<in> set (plusRests isSpace s3)" "(d, s5) \<in> set (plusRests isDigit s4)"
      "s6 \<in> set (optStars uc s5)" "matchChars uc (js '']'') s6 = Some rest"
    by (fastforce simp: matchSlideMarker_def split: option.splits prod.splits dest!: firstSome_Some)
  then have "length rest \<le> length s1"
    using optStars_length [of s2 uc s1] matchChars_length [of uc "js ''SLIDE''" s2 s3]
      plusRests_length [of ws s4 isSpace s3] plusRests_length [of d s5 isDigit s4]
      optStars_length [of s6 uc s5] matchChars_length [of uc "js '']''" s6 rest]
    by simp
  ultimately show ?thesis by simp
qed

text \<open>
  \<open>fullText.split(marker)\<close>: at every position where the marker matches, the text
  since the previous match is pushed, then the captured digits, and the search goes on
  after the match; the text after the last match is pushed at the end.
\<close>

function splitSlidesLoop :: "(nat \<Rightarrow> nat list) \<Rightarrow> jsstring \<Rightarrow> jsstring \<Rightarrow> jsstring list" where
  "splitSlidesLoop uc acc [] = [rev acc]"
| "splitSlidesLoop uc acc (c # cs) =
     (case matchSlideMarker uc (c # cs) of
        Some (digits, rest) \<Rightarrow> rev acc # digits # splitSlidesLoop uc [] rest
      | None \<Rightarrow> splitSlidesLoop uc (c # acc) cs)"
  by pat_completeness auto
termination
  by (relation "measure (\<lambda>(uc, acc, s). length s)") (auto dest: matchSlideMarker_shorter)

definition splitSlides :: "(nat \<Rightarrow> nat list) \<Rightarrow> jsstring \<Rightarrow> jsstring list" where
  "splitSlides uc fullText = splitSlidesLoop uc [] fullText"

text \<open>\<open>block.split('\n')\<close>.\<close>

fun splitLines :: "jsstring \<Rightarrow> jsstring list" where
  "splitLines [] = [[]]"
| "splitLines (c # cs) =
     (if c = 10 then [] # splitLines cs
      else (case splitLines cs of [] \<Rightarrow> [[c]] | l # ls \<Rightarrow> (c # l) # ls))"

text \<open>
  \<open>content.split(/(?<=[\<dots>.!?])\s+/)\<close>: a match is a longest run of white space whose
  preceding character \<open>prev\<close> is one of the six sentence terminators U+3002, U+FF01,
  U+FF1F, full stop, exclamation mark and question mark.
\<close>

definition isTerminator :: "nat \<Rightarrow> bool" where
  "isTerminator c \<longleftrightarrow> c = 12290 \<or> c = 65281 \<or> c = 65311 \<or> c = 46 \<or> c = 33 \<or> c = 63"

definition matchSentenceBreak :: "nat option \<Rightarrow> jsstring \<Rightarrow> (jsstring \<times> jsstring) option" where
  "matchSentenceBreak prev s =
     (case prev of
        None \<Rightarrow> None
      | Some b \<Rightarrow> if isTerminator b then firstSome Some (plusRests isSpace s) else None)"

lemma matchSentenceBreak_shorter:
  "matchSentenceBreak prev s = Some (ws, rest) \<Longrightarrow> length rest < length s"
  by (auto simp: matchSentenceBreak_def split: option.splits if_splits
      dest!: firstSome_Some dest: plusRests_length)

function splitSentencesLoop :: "nat option \<Rightarrow> jsstring \<Rightarrow> jsstring \<Rightarrow> jsstring list" where
  "splitSentencesLoop prev acc [] = [rev acc]"
| "splitSentencesLoop prev acc (c # cs) =
     (case matchSentenceBreak prev (c # cs) of
        Some (ws, rest) \<Rightarrow> rev acc # splitSentencesLoop (Some (last ws)) [] rest
      | None \<Rightarrow> splitSentencesLoop (Some c) (c # acc) cs)"
  by pat_completeness auto
termination
  by (relation "measure (\<lambda>(prev, acc, s). length s)") (auto dest: matchSentenceBreak_shorter)

definition splitSentences :: "jsstring \<Rightarrow> jsstring list" where
  "splitSentences content = splitSentencesLoop None [] content"

subsection \<open>The parser\<close>

text \<open>
  \<open>/^\d+$/.test(block)\<close>, and \<open>parseInt(block, 10)\<close> on such a block, as an exact
  natural number.
\<close>

definition isPageNumber :: "jsstring \<Rightarrow> bool" where
  "isPageNumber block \<longleftrightarrow> block \<noteq> [] \<and> list_all isDigit block"

definition parseInt10 :: "jsstring \<Rightarrow> nat" where
  "parseInt10 block = foldl (\<lambda>n c. 10 * n + (c - 48)) 0 block"

text \<open>\<open>Math.max(0, pageNum - 1)\<close>.\<close>

definition pageIndex :: "jsstring \<Rightarrow> nat" where
  "pageIndex block = nat (max 0 (int (parseInt10 block) - 1))"

text \<open>
  The variables of the parser. The identifiers, random in the program, are taken from
  the parameter \<open>ids\<close>: the identifier of the segment pushed as number \<open>k\<close>.
\<close>

record parse_state =
  currentSlideIndex :: nat
  runningTime :: real
  currentSpeaker :: "speaker option"
  segments :: "ScriptSegment list"

fun sentenceLoop :: "(nat \<Rightarrow> jsstring) \<Rightarrow> speaker \<Rightarrow> jsstring list \<Rightarrow> parse_state \<Rightarrow> parse_state" where
  "sentenceLoop ids spk [] st = st"
| "sentenceLoop ids spk (sentence # rest) st =
     (let cleanSentence = trim sentence in
      if cleanSentence = [] then sentenceLoop ids spk rest st
      else
        (let dur = max (3 / 2) (real (length cleanSentence) / 15) in
         sentenceLoop ids spk rest
           (st\<lparr>segments := segments st @
                  [\<lparr>seg_id = ids (length (segments st)),
                    slideIndex = currentSlideIndex st,
                    speaker = spk,
                    seg_text = cleanSentence,
                    startTime = runningTime st,
                    endTime = runningTime st + dur\<rparr>],
                runningTime := runningTime st + dur\<rparr>)))"

definition processLine ::
  "(nat \<Rightarrow> nat list) \<Rightarrow> (nat \<Rightarrow> jsstring) \<Rightarrow> jsstring \<Rightarrow> jsstring \<Rightarrow> jsstring \<Rightarrow> parse_state \<Rightarrow> parse_state" where
  "processLine uc ids hostName expertName line st =
     (let trimmed = trim line in
      if trimmed = [] then st
      else
        (let (spk, content) =
               (case matchLabel uc (js ''Host'') hostName trimmed of
                  Some rest \<Rightarrow> (Some Host, trim rest)
                | None \<Rightarrow>
                    (case matchLabel uc (js ''Expert'') expertName trimmed of
                       Some rest \<Rightarrow> (Some Expert, trim rest)
                     | None \<Rightarrow> (currentSpeaker st, trimmed)));
             st1 = st\<lparr>currentSpeaker := spk\<rparr>
         in case spk of
              None \<Rightarrow> st1
            | Some s \<Rightarrow> if content = [] then st1 else sentenceLoop ids s (splitSentences content) st1))"

fun lineLoop ::
  "(nat \<Rightarrow> nat list) \<Rightarrow> (nat \<Rightarrow> jsstring) \<Rightarrow> jsstring \<Rightarrow> jsstring \<Rightarrow> jsstring list \<Rightarrow> parse_state \<Rightarrow> parse_state" where
  "lineLoop uc ids hostName expertName [] st = st"
| "lineLoop uc ids hostName expertName (line # rest) st =
     lineLoop uc ids hostName expertName rest (processLine uc ids hostName expertName line st)"

fun blockLoop ::
  "(nat \<Rightarrow> nat list) \<Rightarrow> (nat \<Rightarrow> jsstring) \<Rightarrow> jsstring \<Rightarrow> jsstring \<Rightarrow> jsstring list \<Rightarrow> parse_state \<Rightarrow> parse_state" where
  "blockLoop uc ids hostName expertName [] st = st"
| "blockLoop uc ids hostName expertName (block # rest) st =
     (if isPageNumber block
      then blockLoop uc ids hostName expertName rest (st\<lparr>currentSlideIndex := pageIndex block\<rparr>)
      else blockLoop uc ids hostName expertName rest
             (lineLoop uc ids hostName expertName (splitLines block) st))"

definition parseScriptToSegments ::
  "(nat \<Rightarrow> nat list) \<Rightarrow> (nat \<Rightarrow> jsstring) \<Rightarrow> jsstring \<Rightarrow> jsstring \<Rightarrow> jsstring \<Rightarrow> ScriptSegment list" where
  "parseScriptToSegments uc ids fullText hostName expertName =
     segments (blockLoop uc ids hostName expertName (splitSlides uc fullText)
       \<lparr>currentSlideIndex = 0, runningTime = 0, currentSpeaker = None, segments = []\<rparr>)"

section \<open>The contiguity invariant\<close>

text \<open>
  A specification predicate: the segments tile the time line from \<open>t\<close> on. Each
  segment starts where the one before it ended (the first one at \<open>t\<close>) and ends later
  than it starts. A segment list is contiguous when it tiles the time line from 0.
\<close>

fun chained :: "real \<Rightarrow> ScriptSegment list \<Rightarrow> bool" where
  "chained t [] = True"
| "chained t (s # ss) = (startTime s = t \<and> startTime s < endTime s \<and> chained (endTime s) ss)"

definition contiguous :: "ScriptSegment list \<Rightarrow> bool" where
  "contiguous segs = chained 0 segs"

text \<open>
  Two more specification predicates, for the parser's loops: the segments tile the
  time line from 0 to \<open>t\<close>; and the slide indices of the segments ascend and stay at
  or below \<open>k\<close>.
\<close>

definition tiles :: "ScriptSegment list \<Rightarrow> real \<Rightarrow> bool" where
  "tiles segs t \<longleftrightarrow> chained 0 segs \<and> t = (if segs = [] then 0 else endTime (last segs))"

definition slidesAscend :: "ScriptSegment list \<Rightarrow> nat \<Rightarrow> bool" where
  "slidesAscend segs k \<longleftrightarrow> sorted (map slideIndex segs) \<and> list_all (\<lambda>s. slideIndex s \<le> k) segs"

section \<open>Concrete inputs\<close>

text \<open>
  A simulated provider that rejects its first \<open>k\<close> requests with a rate-limit error (status 429)
  and answers every later request with two zero bytes of audio, encoded in base64 as
  \<open>AAA=\<close>; a base64 decoder knowing that one payload; and a response that carries
  text and no audio.
\<close>

definition rateLimited :: js_error where
  "rateLimited = \<lparr>status = Some 429, error_code = None, json = js ''{}'', message = []\<rparr>"

definition silence :: response where
  "silence = \<lparr>inlineData = Some (js ''AAA=''), text_part = None\<rparr>"

definition atobStub :: "jsstring \<Rightarrow> jsstring option" where
  "atobStub b = (if b = js ''AAA='' then Some [0, 0] else None)"

definition failThenSucceed :: "nat \<Rightarrow> provider" where
  "failThenSucceed k = (\<lambda>n prompt voiceName. if n < k then Rejected rateLimited else Resolved silence)"

definition silenceAudio :: GeneratedAudio where
  "silenceAudio = \<lparr>buffer = \<lparr>channelData = [0], sampleRate = 24000\<rparr>, rawData = [0, 0]\<rparr>"

definition textOnly :: response where
  "textOnly = \<lparr>inlineData = None, text_part = Some (js ''Sure!'')\<rparr>"

text \<open>
  Segments for concrete runs: two sentences of the host and one of the expert on the
  first slide, what the sequencer returns for them when every unit is answered with
  one sample of silence and sums and quotients are exact, and two segments without
  text.
\<close>

definition exact :: "real \<Rightarrow> real" where
  "exact x = x"

definition demoSegments :: "ScriptSegment list" where
  "demoSegments =
    [\<lparr>seg_id = js ''a'', slideIndex = 0, speaker = Host, seg_text = js ''Hello.'', startTime = 0, endTime = 3 / 2\<rparr>,
     \<lparr>seg_id = js ''b'', slideIndex = 0, speaker = Host, seg_text = js ''Welcome.'', startTime = 3 / 2, endTime = 3\<rparr>,
     \<lparr>seg_id = js ''c'', slideIndex = 0, speaker = Expert, seg_text = js ''Hi there.'', startTime = 3, endTime = 9 / 2\<rparr>]"

definition demoStamped :: "ScriptSegment list" where
  "demoStamped =
    [\<lparr>seg_id = js ''a'', slideIndex = 0, speaker = Host, seg_text = js ''Hello. Welcome.'', startTime = 0, endTime = 1 / 24000\<rparr>,
     \<lparr>seg_id = js ''c'', slideIndex = 0, speaker = Expert, seg_text = js ''Hi there.'', startTime = 1 / 24000, endTime = 2 / 24000\<rparr>]"

definition demoAudio :: GeneratedAudio where
  "demoAudio = \<lparr>buffer = \<lparr>channelData = [0, 0], sampleRate = 24000\<rparr>, rawData = [0, 0, 0, 0]\<rparr>"

definition blankSegments :: "ScriptSegment list" where
  "blankSegments =
    [\<lparr>seg_id = js ''a'', slideIndex = 0, speaker = Host, seg_text = js ''  '', startTime = 0, endTime = 3 / 2\<rparr>,
     \<lparr>seg_id = js ''b'', slideIndex = 1, speaker = Expert, seg_text = [], startTime = 3 / 2, endTime = 3\<rparr>]"

text \<open>
  For concrete runs of the synchronizer: two contiguous segments, an audio element
  playing at a given time, and the component's initial state (no active segment).
\<close>

definition syncSegments :: "ScriptSegment list" where
  "syncSegments =
    [\<lparr>seg_id = js ''a'', slideIndex = 0, speaker = Host, seg_text = js ''Hello.'', startTime = 0, endTime = 2\<rparr>,
     \<lparr>seg_id = js ''b'', slideIndex = 3, speaker = Expert, seg_text = js ''Hi there.'', startTime = 2, endTime = 5\<rparr>]"

definition playingAt :: "real \<Rightarrow> audio_element" where
  "playingAt t = \<lparr>paused = False, elemCurrentTime = t, elemDuration = Some 5\<rparr>"

definition noneActive :: sync_state where
  "noneActive = \<lparr>currentTime = 0, audioDuration = 0, activeSegmentIndex = - 1, activeSlideIndex = 0\<rparr>"

text \<open>
  For concrete runs of the segmenter: the script of the scenario, with line feeds
  between its lines; a script whose second marker names an earlier slide; a case
  table without case pairs outside ASCII; and serial identifiers.
\<close>

definition demoText :: jsstring where
  "demoText = js (''[SLIDE 1]'' @ [CHR 0x0A] @ ''Host: Hello. Welcome.'' @ [CHR 0x0A] @ ''Expert: Hi there.''
      @ [CHR 0x0A] @ ''[SLIDE 2]'' @ [CHR 0x0A] @ ''Host: Let's continue.'')"

definition backwardText :: jsstring where
  "backwardText = js (''[SLIDE 2]'' @ [CHR 0x0A] @ ''Host: Two.'' @ [CHR 0x0A] @ ''[SLIDE 1]'' @ [CHR 0x0A] @ ''Host: One.'')"

definition noCase :: "nat \<Rightarrow> nat list" where
  "noCase c = [c]"

definition serialIds :: "nat \<Rightarrow> jsstring" where
  "serialIds k = js ''seg'' @ [48 + k]"

section \<open>Properties of the merger\<close>

lemma mergeLoop_nonempty: "mergeLoop c xs \<noteq> []"
  by (induction xs arbitrary: c) auto

lemma mergeLoop_head_key:
  "mergeLoop c xs = r # rs \<Longrightarrow> speaker r = speaker c \<and> slideIndex r = slideIndex c"
proof (induction xs arbitrary: c)
  case Nil
  then show ?case by simp
next
  case (Cons x xs)
  show ?case
  proof (cases "speaker x = speaker c \<and> slideIndex x = slideIndex c")
    case True
    with Cons.prems have "mergeLoop (c\<lparr>seg_text := seg_text c @ [32] @ seg_text x\<rparr>) xs = r # rs"
      by simp
    from Cons.IH [OF this] show ?thesis by simp
  next
    case False
    with Cons.prems show ?thesis by auto
  qed
qed

lemma mergeLoop_fixed: "mergeSegments (mergeLoop c xs) = mergeLoop c xs"
proof (induction xs arbitrary: c)
  case Nil
  show ?case by (simp add: mergeSegments_def)
next
  case (Cons x xs)
  show ?case
  proof (cases "speaker x = speaker c \<and> slideIndex x = slideIndex c")
    case True
    then show ?thesis using Cons.IH by simp
  next
    case False
    obtain r rs where out: "mergeLoop x xs = r # rs"
      using mergeLoop_nonempty [of x xs] by (cases "mergeLoop x xs") auto
    from mergeLoop_head_key [OF out] False
    have differ: "\<not> (speaker r = speaker c \<and> slideIndex r = slideIndex c)" by simp
    have "mergeSegments (r # rs) = r # rs"
      using Cons.IH [of x] out by simp
    then have stable: "mergeLoop r rs = r # rs"
      by (simp add: mergeSegments_def)
    have step: "mergeLoop c (x # xs) = c # r # rs"
      using False out by auto
    have "mergeLoop c (r # rs) = c # mergeLoop r rs"
      using differ by auto
    then have "mergeSegments (c # r # rs) = c # r # rs"
      using stable by (simp add: mergeSegments_def)
    with step show ?thesis by simp
  qed
qed

text \<open>
  Claim C5. Merging is idempotent on its own output: merging the result of a merge
  gives that result again, as a whole (hence the same length and the same speaker,
  slide index and text at every position).
\<close>

theorem merge_idempotent: "mergeSegments (mergeSegments segs) = mergeSegments segs"
proof (cases segs)
  case Nil
  then show ?thesis by (simp add: mergeSegments_def)
next
  case (Cons first rest)
  then have "mergeSegments segs = mergeLoop first rest"
    by (simp add: mergeSegments_def)
  then show ?thesis
    using mergeLoop_fixed [of first rest] by simp
qed

section \<open>Properties of the synthesis client\<close>


lemma Error_not_transient: "\<not> isRateLimit (Error msg) \<and> \<not> isServerBusy (Error msg)"
  by (simp add: Error_def isRateLimit_def isServerBusy_def js_def)

lemma noAudioError_not_transient:
  "\<not> isRateLimit (noAudioError r) \<and> \<not> isServerBusy (noAudioError r)"
  by (simp add: noAudioError_def Error_not_transient split: option.split)

lemma readResponse_no_audio:
  assumes "inlineData r = None \<or> inlineData r = Some []"
  shows "readResponse atob (Resolved r) = Inl (noAudioError r)"
  using assms by (auto simp: readResponse_def)

lemma generateLoop_success:
  assumes "readResponse atob (P n prompt voice) = Inr audio"
  shows "generateLoop P atob prompt voice attempt n = (Inr audio, Suc n)"
  using assms by (simp add: generateLoop.simps)

lemma generateLoop_retry:
  assumes "P n prompt voice = Rejected e" and "isRateLimit e \<or> isServerBusy e" and "attempt < maxRetries"
  shows "generateLoop P atob prompt voice attempt n = generateLoop P atob prompt voice (Suc attempt) (Suc n)"
  using assms by (subst generateLoop.simps) (simp add: readResponse_def)

lemma generateLoop_give_up:
  assumes "P n prompt voice = Rejected e" and "maxRetries \<le> attempt"
  shows "generateLoop P atob prompt voice attempt n = (Inl e, Suc n)"
  using assms by (subst generateLoop.simps) (simp add: readResponse_def)

lemma generateLoop_fatal:
  assumes "readResponse atob (P n prompt voice) = Inl e" and "\<not> isRateLimit e" and "\<not> isServerBusy e"
  shows "generateLoop P atob prompt voice attempt n = (Inl e, Suc n)"
  using assms by (subst generateLoop.simps) simp

lemma retry_then_success:
  assumes "attempt + k \<le> maxRetries"
    and "\<forall>i<k. \<exists>e. P (n + i) prompt voice = Rejected e \<and> (isRateLimit e \<or> isServerBusy e)"
    and "readResponse atob (P (n + k) prompt voice) = Inr audio"
  shows "generateLoop P atob prompt voice attempt n = (Inr audio, n + k + 1)"
  using assms
proof (induction k arbitrary: attempt n)
  case 0
  then show ?case by (simp add: generateLoop_success)
next
  case (Suc k)
  from Suc.prems(2) obtain e where e: "P n prompt voice = Rejected e" "isRateLimit e \<or> isServerBusy e"
    by (metis add.right_neutral zero_less_Suc)
  have "attempt < maxRetries" using Suc.prems(1) by simp
  then have step: "generateLoop P atob prompt voice attempt n
      = generateLoop P atob prompt voice (Suc attempt) (Suc n)"
    using e generateLoop_retry [where P = P and n = n and prompt = prompt and voice = voice and e = e]
    by blast
  have later: "\<forall>i<k. \<exists>e. P (Suc n + i) prompt voice = Rejected e \<and> (isRateLimit e \<or> isServerBusy e)"
  proof (intro allI impI)
    fix i assume "i < k"
    then have "Suc i < Suc k" by simp
    with Suc.prems(2) have "\<exists>e. P (n + Suc i) prompt voice = Rejected e \<and> (isRateLimit e \<or> isServerBusy e)"
      by blast
    then show "\<exists>e. P (Suc n + i) prompt voice = Rejected e \<and> (isRateLimit e \<or> isServerBusy e)"
      by simp
  qed
  have "generateLoop P atob prompt voice (Suc attempt) (Suc n) = (Inr audio, Suc n + k + 1)"
    using Suc.prems(1,3) later by (intro Suc.IH) simp_all
  with step show ?case by simp
qed

lemma retry_exhausted:
  assumes "attempt + k = maxRetries"
    and "\<forall>i\<le>k. \<exists>e. P (n + i) prompt voice = Rejected e \<and> (isRateLimit e \<or> isServerBusy e)"
    and "P (n + k) prompt voice = Rejected e"
  shows "generateLoop P atob prompt voice attempt n = (Inl e, n + k + 1)"
  using assms
proof (induction k arbitrary: attempt n)
  case 0
  then show ?case by (simp add: generateLoop_give_up)
next
  case (Suc k)
  from Suc.prems(2) obtain e' where e: "P n prompt voice = Rejected e'" "isRateLimit e' \<or> isServerBusy e'"
    by (metis add.right_neutral le0)
  have "attempt < maxRetries" using Suc.prems(1) by simp
  then have step: "generateLoop P atob prompt voice attempt n
      = generateLoop P atob prompt voice (Suc attempt) (Suc n)"
    using e generateLoop_retry [where P = P and n = n and prompt = prompt and voice = voice and e = e']
    by blast
  have later: "\<forall>i\<le>k. \<exists>e. P (Suc n + i) prompt voice = Rejected e \<and> (isRateLimit e \<or> isServerBusy e)"
  proof (intro allI impI)
    fix i assume "i \<le> k"
    then have "Suc i \<le> Suc k" by simp
    with Suc.prems(2) have "\<exists>e. P (n + Suc i) prompt voice = Rejected e \<and> (isRateLimit e \<or> isServerBusy e)"
      by blast
    then show "\<exists>e. P (Suc n + i) prompt voice = Rejected e \<and> (isRateLimit e \<or> isServerBusy e)"
      by simp
  qed
  have "generateLoop P atob prompt voice (Suc attempt) (Suc n) = (Inl e, Suc n + k + 1)"
    using Suc.prems(1,3) later by (intro Suc.IH) simp_all
  with step show ?case by simp
qed

lemma rateLimited_transient: "isRateLimit rateLimited"
  by (simp add: isRateLimit_def rateLimited_def)

lemma readResponse_silence: "readResponse atobStub (Resolved silence) = Inr silenceAudio"
  by (simp add: readResponse_def silence_def atobStub_def js_def decodeAudioData_def
      createBuffer_def decodeSample_def silenceAudio_def)

text \<open>
  Claim C2, as the code has it. The loop retries while \<open>attempt \<le> maxRetries\<close> after
  the increment, so a call makes at most 11 requests: the first attempt and 10 retries.
  When the provider rejects the first \<open>k \<le> 10\<close> requests of the call with a transient
  error and then returns decodable audio, the call returns that audio after exactly
  \<open>k + 1\<close> requests. When the provider rejects 11 requests in a row with a transient
  error, the call fails after exactly 11 requests with the error of the last one.
\<close>

theorem retry_policy:
  "(k \<le> 10
      \<and> (\<forall>i<k. \<exists>e. P (n + i) (promptText t) voice = Rejected e \<and> (isRateLimit e \<or> isServerBusy e))
      \<and> readResponse atob (P (n + k) (promptText t) voice) = Inr audio
    \<longrightarrow> generateSingleSpeakerAudio P atob t voice n = (Inr audio, n + k + 1))
   \<and> ((\<forall>i<11. \<exists>e. Q (m + i) (promptText t) voice = Rejected e \<and> (isRateLimit e \<or> isServerBusy e))
      \<and> Q (m + 10) (promptText t) voice = Rejected e10
    \<longrightarrow> generateSingleSpeakerAudio Q atob t voice m = (Inl e10, m + 11))"
proof (intro conjI impI)
  assume a: "k \<le> 10
      \<and> (\<forall>i<k. \<exists>e. P (n + i) (promptText t) voice = Rejected e \<and> (isRateLimit e \<or> isServerBusy e))
      \<and> readResponse atob (P (n + k) (promptText t) voice) = Inr audio"
  then have "0 + k \<le> maxRetries" by (simp add: maxRetries_def)
  with a show "generateSingleSpeakerAudio P atob t voice n = (Inr audio, n + k + 1)"
    unfolding generateSingleSpeakerAudio_def by (intro retry_then_success) simp_all
next
  assume a: "(\<forall>i<11. \<exists>e. Q (m + i) (promptText t) voice = Rejected e \<and> (isRateLimit e \<or> isServerBusy e))
      \<and> Q (m + 10) (promptText t) voice = Rejected e10"
  have "0 + 10 = maxRetries" by (simp add: maxRetries_def)
  moreover from a
  have "\<forall>i\<le>10. \<exists>e. Q (m + i) (promptText t) voice = Rejected e \<and> (isRateLimit e \<or> isServerBusy e)"
    by (simp add: less_Suc_eq_le [symmetric])
  ultimately have "generateLoop Q atob (promptText t) voice 0 m = (Inl e10, m + 10 + 1)"
    using a by (intro retry_exhausted) simp_all
  then show "generateSingleSpeakerAudio Q atob t voice m = (Inl e10, m + 11)"
    by (simp add: generateSingleSpeakerAudio_def)
qed

theorem retry_policy_witness:
  "(3::nat) \<le> 10
   \<and> list_all (\<lambda>i. failThenSucceed 3 (0 + i) (promptText (js ''Hi'')) (js ''Kore'') = Rejected rateLimited)
        [0..<3]
   \<and> isRateLimit rateLimited
   \<and> readResponse atobStub (failThenSucceed 3 (0 + 3) (promptText (js ''Hi'')) (js ''Kore'')) = Inr silenceAudio
   \<and> generateSingleSpeakerAudio (failThenSucceed 3) atobStub (js ''Hi'') (js ''Kore'') 0 = (Inr silenceAudio, 4)
   \<and> list_all (\<lambda>i. failThenSucceed 11 (0 + i) (promptText (js ''Hi'')) (js ''Kore'') = Rejected rateLimited)
        [0..<11]
   \<and> generateSingleSpeakerAudio (failThenSucceed 11) atobStub (js ''Hi'') (js ''Kore'') 0 = (Inl rateLimited, 11)"
proof -
  have r3: "list_all (\<lambda>i. failThenSucceed 3 (0 + i) (promptText (js ''Hi'')) (js ''Kore'') = Rejected rateLimited)
        [0..<3]"
    by (simp add: failThenSucceed_def list_all_iff)
  have r11: "list_all (\<lambda>i. failThenSucceed 11 (0 + i) (promptText (js ''Hi'')) (js ''Kore'') = Rejected rateLimited)
        [0..<11]"
    by (simp add: failThenSucceed_def list_all_iff)
  have h1: "\<forall>i<3. \<exists>e. failThenSucceed 3 (0 + i) (promptText (js ''Hi'')) (js ''Kore'') = Rejected e
          \<and> (isRateLimit e \<or> isServerBusy e)"
    using r3 by (simp add: list_all_iff rateLimited_transient)
  have h2: "readResponse atobStub (failThenSucceed 3 (0 + 3) (promptText (js ''Hi'')) (js ''Kore'')) = Inr silenceAudio"
    by (simp add: failThenSucceed_def readResponse_silence)
  have h3: "\<forall>i<11. \<exists>e. failThenSucceed 11 (0 + i) (promptText (js ''Hi'')) (js ''Kore'') = Rejected e
          \<and> (isRateLimit e \<or> isServerBusy e)"
    using r11 by (simp add: list_all_iff rateLimited_transient)
  have h4: "failThenSucceed 11 (0 + 10) (promptText (js ''Hi'')) (js ''Kore'') = Rejected rateLimited"
    by (simp add: failThenSucceed_def)
  from retry_policy [of 3 "failThenSucceed 3" 0 "js ''Hi''" "js ''Kore''" atobStub silenceAudio
      "failThenSucceed 11" 0 rateLimited] h1 h2 h3 h4
  have "generateSingleSpeakerAudio (failThenSucceed 3) atobStub (js ''Hi'') (js ''Kore'') 0 = (Inr silenceAudio, 4)
    \<and> generateSingleSpeakerAudio (failThenSucceed 11) atobStub (js ''Hi'') (js ''Kore'') 0 = (Inl rateLimited, 11)"
    by simp
  with r3 r11 h2 rateLimited_transient show ?thesis by simp
qed

text \<open>
  With exactly 10 transient failures the call still succeeds, on its 11th request;
  with 11 transient failures it fails after 11 requests, not 10.
\<close>

theorem retry_policy_counterexample:
  "generateSingleSpeakerAudio (failThenSucceed 10) atobStub (js ''Hi'') (js ''Kore'') 0 = (Inr silenceAudio, 11)
   \<and> snd (generateSingleSpeakerAudio (failThenSucceed 11) atobStub (js ''Hi'') (js ''Kore'') 0) \<noteq> 10"
proof -
  have h1: "\<forall>i<10. \<exists>e. failThenSucceed 10 (0 + i) (promptText (js ''Hi'')) (js ''Kore'') = Rejected e
          \<and> (isRateLimit e \<or> isServerBusy e)"
    by (simp add: failThenSucceed_def rateLimited_transient)
  have h2: "readResponse atobStub (failThenSucceed 10 (0 + 10) (promptText (js ''Hi'')) (js ''Kore'')) = Inr silenceAudio"
    by (simp add: failThenSucceed_def readResponse_silence)
  have "0 + 10 \<le> maxRetries" by (simp add: maxRetries_def)
  from retry_then_success [where P = "failThenSucceed 10" and n = 0 and k = 10, OF this h1 h2]
  have a: "generateSingleSpeakerAudio (failThenSucceed 10) atobStub (js ''Hi'') (js ''Kore'') 0 = (Inr silenceAudio, 11)"
    by (simp add: generateSingleSpeakerAudio_def)
  have h3: "\<forall>i\<le>10. \<exists>e. failThenSucceed 11 (0 + i) (promptText (js ''Hi'')) (js ''Kore'') = Rejected e
          \<and> (isRateLimit e \<or> isServerBusy e)"
    by (simp add: failThenSucceed_def rateLimited_transient)
  have h4: "failThenSucceed 11 (0 + 10) (promptText (js ''Hi'')) (js ''Kore'') = Rejected rateLimited"
    by (simp add: failThenSucceed_def)
  have "0 + 10 = maxRetries" by (simp add: maxRetries_def)
  from retry_exhausted [where P = "failThenSucceed 11" and n = 0 and k = 10, OF this h3 h4]
  have b: "generateSingleSpeakerAudio (failThenSucceed 11) atobStub (js ''Hi'') (js ''Kore'') 0 = (Inl rateLimited, 11)"
    by (simp add: generateSingleSpeakerAudio_def)
  from a b show ?thesis by simp
qed

text \<open>
  Claim C3. A response without audio payload (no inline data, or empty inline data),
  whether or not it carries text, makes the call fail at once with the error thrown for
  it, at any point of the retry loop: the request that produced the response is the
  last one issued.
\<close>

theorem no_audio_fails_immediately:
  assumes "inlineData r = None \<or> inlineData r = Some []"
  shows "(P n prompt voice = Resolved r
            \<longrightarrow> generateLoop P atob prompt voice attempt n = (Inl (noAudioError r), Suc n))
       \<and> (P n (promptText t) voice = Resolved r
            \<longrightarrow> generateSingleSpeakerAudio P atob t voice n = (Inl (noAudioError r), Suc n))"
proof -
  have fatal: "generateLoop P atob p voice a n = (Inl (noAudioError r), Suc n)"
    if "P n p voice = Resolved r" for p a
  proof -
    have "readResponse atob (P n p voice) = Inl (noAudioError r)"
      using that readResponse_no_audio [OF assms] by simp
    then show ?thesis
      using noAudioError_not_transient [of r] by (intro generateLoop_fatal) simp_all
  qed
  then show ?thesis by (simp add: generateSingleSpeakerAudio_def)
qed

theorem no_audio_fails_immediately_witness:
  "(inlineData textOnly = None \<or> inlineData textOnly = Some [])
   \<and> (\<lambda>n prompt voiceName. Resolved textOnly) 0 (promptText (js ''Hi'')) (js ''Kore'') = Resolved textOnly
   \<and> generateLoop (\<lambda>n prompt voiceName. Resolved textOnly) atobStub (promptText (js ''Hi'')) (js ''Kore'') 0 0
       = (Inl (noAudioError textOnly), Suc 0)
   \<and> generateSingleSpeakerAudio (\<lambda>n prompt voiceName. Resolved textOnly) atobStub (js ''Hi'') (js ''Kore'') 0
       = (Inl (noAudioError textOnly), Suc 0)
   \<and> message (noAudioError textOnly) = js ''Model returned text instead of audio: \"Sure!...\"''"
proof -
  have h: "inlineData textOnly = None \<or> inlineData textOnly = Some []"
    by (simp add: textOnly_def)
  have m: "message (noAudioError textOnly) = js ''Model returned text instead of audio: \"Sure!...\"''"
    by (simp add: noAudioError_def textOnly_def Error_def js_def)
  from no_audio_fails_immediately [OF h, of "\<lambda>n prompt voiceName. Resolved textOnly" 0
      "promptText (js ''Hi'')" "js ''Kore''" atobStub 0 "js ''Hi''"] h m
  show ?thesis by simp
qed

section \<open>Properties of the sequencer\<close>

lemma trim_empty_iff: "trim s = [] \<longleftrightarrow> (\<forall>c\<in>set s. isSpace c)"
proof
  assume "trim s = []"
  then have "\<forall>c\<in>set (dropWhile isSpace s). isSpace c"
    by (simp add: trim_def dropWhile_eq_Nil_conv)
  then have "dropWhile isSpace s = []"
    using hd_dropWhile [of isSpace s] hd_in_set [of "dropWhile isSpace s"] by blast
  then show "\<forall>c\<in>set s. isSpace c"
    by (simp add: dropWhile_eq_Nil_conv)
next
  assume "\<forall>c\<in>set s. isSpace c"
  then have "dropWhile isSpace s = []" by (simp add: dropWhile_eq_Nil_conv)
  then show "trim s = []" by (simp only: trim_def rev.simps dropWhile.simps)
qed

lemma isSpace_space: "isSpace 32"
  by (simp add: isSpace_def)

lemma mergeLoop_blank:
  assumes "trim (seg_text c) = []" and "\<forall>s\<in>set xs. trim (seg_text s) = []"
  shows "\<forall>m\<in>set (mergeLoop c xs). trim (seg_text m) = []"
  using assms
proof (induction xs arbitrary: c)
  case Nil
  then show ?case by simp
next
  case (Cons x xs)
  have joined: "trim (seg_text c @ [32] @ seg_text x) = []"
    using Cons.prems isSpace_space by (auto simp: trim_empty_iff)
  have rest: "\<forall>s\<in>set xs. trim (seg_text s) = []" using Cons.prems by simp
  show ?case
  proof (cases "speaker x = speaker c \<and> slideIndex x = slideIndex c")
    case True
    have "\<forall>m\<in>set (mergeLoop (c\<lparr>seg_text := seg_text c @ [32] @ seg_text x\<rparr>) xs).
        trim (seg_text m) = []"
      using joined rest by (intro Cons.IH) simp_all
    with True show ?thesis by simp
  next
    case False
    have "\<forall>m\<in>set (mergeLoop x xs). trim (seg_text m) = []"
      using Cons.prems by (intro Cons.IH) simp_all
    with False Cons.prems(1) show ?thesis by auto
  qed
qed

lemma mergeSegments_blank:
  assumes "\<forall>s\<in>set raw. trim (seg_text s) = []"
  shows "\<forall>m\<in>set (mergeSegments raw). trim (seg_text m) = []"
proof (cases raw)
  case Nil
  then show ?thesis by (simp add: mergeSegments_def)
next
  case (Cons first rest)
  with assms mergeLoop_blank [of first rest] show ?thesis
    by (simp add: mergeSegments_def)
qed

lemma sequenceLoop_skip:
  assumes "\<forall>m\<in>set ms. trim (seg_text m) = []"
  shows "sequenceLoop rd P atob hv ev ms bufs fin off n = (Inr (bufs, fin), n)"
  using assms by (induction ms) simp_all

text \<open>
  Claim C10. When every segment's text is empty after trimming (the empty list
  included), \<open>generateSequencedSpeech\<close> issues no request (the request counter is
  unchanged) and fails with the error \<open>No audio generated.\<close>, whatever the rounding.
\<close>

theorem blank_script_no_audio:
  assumes "\<forall>s\<in>set rawSegments. trim (seg_text s) = []"
  shows "generateSequencedSpeech rd P atob rawSegments hostVoice expertVoice n
           = (Inl (Error (js ''No audio generated.'')), n)"
proof -
  have "sequenceLoop rd P atob hostVoice expertVoice (mergeSegments rawSegments) [] [] 0 n
          = (Inr ([], []), n)"
    using mergeSegments_blank [OF assms] by (rule sequenceLoop_skip)
  then show ?thesis by (simp add: generateSequencedSpeech_def)
qed

lemma length_int16View: "length (int16View bs) = length bs div 2"
  by (induction bs rule: int16View.induct) simp_all






lemma sequenceLoop_Inr:
  assumes "sequenceLoop rd P atob hv ev ms bufs fin off n = (Inr (bufs', fin'), n')"
  shows "\<exists>audios newf.
           unitAudios P atob hv ev (filter (\<lambda>m. trim (seg_text m) \<noteq> []) ms) n = (Inr audios, n')
           \<and> bufs' = bufs @ map buffer audios \<and> fin' = fin @ newf
           \<and> stamped rd off (filter (\<lambda>m. trim (seg_text m) \<noteq> []) ms) newf (map buffer audios)"
  using assms
proof (induction ms arbitrary: bufs fin off n)
  case Nil
  then show ?case by simp
next
  case (Cons m ms)
  show ?case
  proof (cases "trim (seg_text m) = []")
    case True
    with Cons.prems have "sequenceLoop rd P atob hv ev ms bufs fin off n = (Inr (bufs', fin'), n')"
      by simp
    from Cons.IH [OF this] True show ?thesis by simp
  next
    case False
    define voice where "voice = (if speaker m = Host then hv else ev)"
    obtain r k where call: "generateSingleSpeakerAudio P atob (trim (seg_text m)) voice n = (r, k)"
      by (cases "generateSingleSpeakerAudio P atob (trim (seg_text m)) voice n") auto
    show ?thesis
    proof (cases r)
      case (Inl e)
      with Cons.prems False call show ?thesis by (simp add: voice_def Let_def)
    next
      case (Inr a)
      let ?end = "rd (off + duration rd (buffer a))"
      let ?s = "m\<lparr>startTime := off, endTime := ?end\<rparr>"
      from Cons.prems False call Inr
      have "sequenceLoop rd P atob hv ev ms (bufs @ [buffer a]) (fin @ [?s]) ?end k
              = (Inr (bufs', fin'), n')"
        by (simp add: voice_def Let_def)
      from Cons.IH [OF this] obtain later newf where
        rest: "unitAudios P atob hv ev (filter (\<lambda>m. trim (seg_text m) \<noteq> []) ms) k = (Inr later, n')"
          "bufs' = (bufs @ [buffer a]) @ map buffer later" "fin' = (fin @ [?s]) @ newf"
          "stamped rd ?end (filter (\<lambda>m. trim (seg_text m) \<noteq> []) ms) newf (map buffer later)"
        by blast
      show ?thesis
      proof (intro exI conjI)
        show "unitAudios P atob hv ev (filter (\<lambda>m. trim (seg_text m) \<noteq> []) (m # ms)) n
                = (Inr (a # later), n')"
          using False call Inr rest(1) by (simp add: voice_def)
        show "bufs' = bufs @ map buffer (a # later)" using rest(2) by simp
        show "fin' = fin @ (?s # newf)" using rest(3) by simp
        show "stamped rd off (filter (\<lambda>m. trim (seg_text m) \<noteq> []) (m # ms)) (?s # newf)
                (map buffer (a # later))"
          using False rest(4) by simp
      qed
    qed
  qed
qed

lemma stamped_length:
  "stamped rd off us ss bs \<Longrightarrow> length ss = length us \<and> length bs = length us"
  by (induction rd off us ss bs rule: stamped.induct) simp_all

lemma stamped_nth:
  "stamped rd off us ss bs \<Longrightarrow> i < length ss
     \<Longrightarrow> ss ! i = (us ! i)\<lparr>startTime := startTime (ss ! i), endTime := endTime (ss ! i)\<rparr>"
proof (induction rd off us ss bs arbitrary: i rule: stamped.induct)
  case (2 rd off u us s ss b bs)
  then show ?case by (cases i) auto
qed simp_all

lemma stamped_head: "stamped rd off us (s # ss) bs \<Longrightarrow> startTime s = off"
  by (cases us; cases bs) auto

lemma stamped_chain:
  "stamped rd off us ss bs \<Longrightarrow> Suc i < length ss \<Longrightarrow> endTime (ss ! i) = startTime (ss ! Suc i)"
proof (induction rd off us ss bs arbitrary: i rule: stamped.induct)
  case (2 rd off u us s ss b bs)
  show ?case
  proof (cases i)
    case 0
    with "2.prems" obtain s' ss' where ss: "ss = s' # ss'" by (cases ss) auto
    with "2.prems" have "startTime s' = rd (off + duration rd b)"
      using stamped_head [of rd "rd (off + duration rd b)" us s' ss' bs] by simp
    with "2.prems" 0 ss show ?thesis by simp
  next
    case (Suc j)
    with "2.prems" "2.IH" [of j] show ?thesis by simp
  qed
qed simp_all

lemma stamped_duration:
  "stamped rd off us ss bs \<Longrightarrow> i < length ss
     \<Longrightarrow> endTime (ss ! i) = rd (startTime (ss ! i) + duration rd (bs ! i))"
proof (induction rd off us ss bs arbitrary: i rule: stamped.induct)
  case (2 rd off u us s ss b bs)
  then show ?case by (cases i) auto
qed simp_all

lemma copyBuffers_concat:
  "offset + sum_list (map (\<lambda>b. length (channelData b)) bs) \<le> length out
     \<Longrightarrow> copyBuffers bs offset out =
           take offset out @ concat (map channelData bs)
             @ drop (offset + sum_list (map (\<lambda>b. length (channelData b)) bs)) out"
proof (induction bs arbitrary: offset out)
  case Nil
  then show ?case by simp
next
  case (Cons b bs)
  let ?n = "length (channelData b)"
  let ?out = "take offset out @ channelData b @ drop (offset + ?n) out"
  have len: "length ?out = length out" using Cons.prems by simp
  have fits: "(offset + ?n) + sum_list (map (\<lambda>b. length (channelData b)) bs) \<le> length ?out"
    using Cons.prems len by simp
  have front: "take (offset + ?n) ?out = take offset out @ channelData b"
    using Cons.prems by simp
  have behind: "drop (offset + ?n + k) ?out = drop (offset + ?n + k) out" for k
    using Cons.prems by (simp add: add.commute add.left_commute)
  show ?case
    using Cons.IH [OF fits] front behind [of "sum_list (map (\<lambda>b. length (channelData b)) bs)"]
    by (simp add: add.assoc)
qed

lemma concatenateAudioBuffers_data:
  assumes "concatenateAudioBuffers bs = Inr c"
  shows "channelData c = concat (map channelData bs)"
proof -
  let ?total = "sum_list (map (\<lambda>b. length (channelData b)) bs)"
  from assms obtain r where r: "createBuffer ?total 24000 = Inr r"
    and c: "c = r\<lparr>channelData := copyBuffers bs 0 (channelData r)\<rparr>"
    by (auto simp: concatenateAudioBuffers_def Let_def split: sum.splits)
  from r have rr: "channelData r = replicate ?total 0"
    by (auto simp: createBuffer_def split: if_splits)
  have "copyBuffers bs 0 (channelData r) = concat (map channelData bs)"
    using copyBuffers_concat [of 0 bs "channelData r"] rr by simp
  with c show ?thesis by simp
qed

lemma sequenced_run:
  assumes "generateSequencedSpeech rd P atob rawSegments hostVoice expertVoice n = (Inr (audio, segs), n')"
  shows "\<exists>audios.
           unitAudios P atob hostVoice expertVoice (speechUnits rawSegments) n = (Inr audios, n')
           \<and> audios \<noteq> []
           \<and> stamped rd 0 (speechUnits rawSegments) segs (map buffer audios)
           \<and> channelData (buffer audio) = concat (map (\<lambda>a. channelData (buffer a)) audios)
           \<and> rawData audio = uint8View (map encodeSample (channelData (buffer audio)))"
proof -
  obtain r k where run:
    "sequenceLoop rd P atob hostVoice expertVoice (mergeSegments rawSegments) [] [] 0 n = (r, k)"
    by (cases "sequenceLoop rd P atob hostVoice expertVoice (mergeSegments rawSegments) [] [] 0 n") auto
  from assms run obtain bufs c where r: "r = Inr (bufs, segs)" and k: "k = n'" and ne: "bufs \<noteq> []"
    and cat: "concatenateAudioBuffers bufs = Inr c"
    and audio: "audio = \<lparr>buffer = c, rawData = uint8View (map encodeSample (channelData c))\<rparr>"
    by (auto simp: generateSequencedSpeech_def split: sum.splits prod.splits if_splits)
  from sequenceLoop_Inr [of rd P atob hostVoice expertVoice "mergeSegments rawSegments" "[]" "[]" 0 n
      bufs segs n'] run r k
  obtain audios where a:
    "unitAudios P atob hostVoice expertVoice (speechUnits rawSegments) n = (Inr audios, n')"
    "bufs = map buffer audios"
    "stamped rd 0 (speechUnits rawSegments) segs (map buffer audios)"
    by (auto simp: speechUnits_def)
  have "channelData (buffer audio) = concat (map (\<lambda>a. channelData (buffer a)) audios)"
    using concatenateAudioBuffers_data [OF cat] audio a(2) by (simp add: comp_def)
  moreover have "rawData audio = uint8View (map encodeSample (channelData (buffer audio)))"
    using audio by simp
  moreover have "audios \<noteq> []" using ne a(2) by auto
  ultimately show ?thesis using a(1,3) by blast
qed

text \<open>
  Claim C1, as the code has it. On success the returned segments are the units of the
  run, the merged segments whose trimmed text is not empty, in order and unchanged but
  for their times (merged granularity, not one segment per raw segment). The list is
  not empty and its first start time is 0; the end time of each segment is the
  rounded sum of its start time and the duration of the audio that the synthesis
  client returned for its own unit; each end time is the next start time; and the
  returned audio holds the samples of those unit audios one after the other.
\<close>

theorem sequenced_segments:
  assumes "generateSequencedSpeech rd P atob rawSegments hostVoice expertVoice n = (Inr (audio, segs), n')"
  shows "\<exists>audios.
           unitAudios P atob hostVoice expertVoice (speechUnits rawSegments) n = (Inr audios, n')
           \<and> length segs = length (speechUnits rawSegments)
           \<and> length audios = length (speechUnits rawSegments)
           \<and> (\<forall>i<length segs. segs ! i =
                 (speechUnits rawSegments ! i)
                   \<lparr>startTime := startTime (segs ! i), endTime := endTime (segs ! i)\<rparr>)
           \<and> segs \<noteq> [] \<and> startTime (segs ! 0) = 0
           \<and> (\<forall>i<length segs.
                 endTime (segs ! i) = rd (startTime (segs ! i) + duration rd (buffer (audios ! i))))
           \<and> (\<forall>i. Suc i < length segs \<longrightarrow> endTime (segs ! i) = startTime (segs ! Suc i))
           \<and> channelData (buffer audio) = concat (map (\<lambda>a. channelData (buffer a)) audios)"
proof -
  from sequenced_run [OF assms] obtain audios where
    run: "unitAudios P atob hostVoice expertVoice (speechUnits rawSegments) n = (Inr audios, n')"
    and ne: "audios \<noteq> []"
    and st: "stamped rd 0 (speechUnits rawSegments) segs (map buffer audios)"
    and data: "channelData (buffer audio) = concat (map (\<lambda>a. channelData (buffer a)) audios)"
    by blast
  have len: "length segs = length (speechUnits rawSegments)"
    "length audios = length (speechUnits rawSegments)"
    using stamped_length [OF st] by simp_all
  with ne have segs_ne: "segs \<noteq> []" by auto
  have first: "startTime (segs ! 0) = 0"
    using segs_ne st stamped_head [of rd 0 "speechUnits rawSegments" "hd segs" "tl segs" "map buffer audios"]
    by (cases segs) auto
  have same: "\<forall>i<length segs. segs ! i =
          (speechUnits rawSegments ! i)\<lparr>startTime := startTime (segs ! i), endTime := endTime (segs ! i)\<rparr>"
    using stamped_nth [OF st] by blast
  have lasts: "\<forall>i<length segs.
          endTime (segs ! i) = rd (startTime (segs ! i) + duration rd (buffer (audios ! i)))"
  proof (intro allI impI)
    fix i assume i: "i < length segs"
    then have "i < length audios" using len by simp
    then have "map buffer audios ! i = buffer (audios ! i)" by simp
    with stamped_duration [OF st i]
    show "endTime (segs ! i) = rd (startTime (segs ! i) + duration rd (buffer (audios ! i)))"
      by simp
  qed
  have chain: "\<forall>i. Suc i < length segs \<longrightarrow> endTime (segs ! i) = startTime (segs ! Suc i)"
    using stamped_chain [OF st] by blast
  from run len same segs_ne first lasts chain data show ?thesis by blast
qed

lemma generateSingleSpeakerAudio_silence:
  "generateSingleSpeakerAudio (failThenSucceed 0) atobStub t voice n = (Inr silenceAudio, Suc n)"
  unfolding generateSingleSpeakerAudio_def
  by (rule generateLoop_success) (simp add: failThenSucceed_def readResponse_silence)

lemma demo_merge:
  "mergeSegments demoSegments =
    [\<lparr>seg_id = js ''a'', slideIndex = 0, speaker = Host, seg_text = js ''Hello. Welcome.'', startTime = 0, endTime = 3 / 2\<rparr>,
     \<lparr>seg_id = js ''c'', slideIndex = 0, speaker = Expert, seg_text = js ''Hi there.'', startTime = 3, endTime = 9 / 2\<rparr>]"
  by (simp add: mergeSegments_def demoSegments_def js_def)

lemma demo_trim:
  "trim (js ''Hello. Welcome.'') \<noteq> []" "trim (js ''Hi there.'') \<noteq> []"
  by (simp_all add: trim_empty_iff js_def isSpace_def)

lemma demo_run:
  "generateSequencedSpeech exact (failThenSucceed 0) atobStub demoSegments (js ''Puck'') (js ''Kore'') 0
     = (Inr (demoAudio, demoStamped), 2)"
  by (simp add: generateSequencedSpeech_def demo_merge demo_trim generateSingleSpeakerAudio_silence
      silenceAudio_def duration_def exact_def concatenateAudioBuffers_def createBuffer_def
      encodeSample_def clampSample_def toInt16_def jsTruncate_def uint8View_def
      demoAudio_def demoStamped_def Let_def)

lemma demo_units:
  "unitAudios (failThenSucceed 0) atobStub (js ''Puck'') (js ''Kore'') (speechUnits demoSegments) 0
     = (Inr [silenceAudio, silenceAudio], 2)"
  by (simp add: speechUnits_def demo_merge demo_trim generateSingleSpeakerAudio_silence)

text \<open>
  Three raw segments, the first two of the same speaker on the same slide: the run
  succeeds and returns two segments.
\<close>

theorem sequenced_segments_counterexample:
  "generateSequencedSpeech exact (failThenSucceed 0) atobStub demoSegments (js ''Puck'') (js ''Kore'') 0
     = (Inr (demoAudio, demoStamped), 2)
   \<and> length demoStamped = 2 \<and> length demoSegments = 3"
  by (simp add: demo_run) (simp add: demoStamped_def demoSegments_def)

theorem sequenced_segments_witness:
  "generateSequencedSpeech exact (failThenSucceed 0) atobStub demoSegments (js ''Puck'') (js ''Kore'') 0
     = (Inr (demoAudio, demoStamped), 2)
   \<and> unitAudios (failThenSucceed 0) atobStub (js ''Puck'') (js ''Kore'') (speechUnits demoSegments) 0
     = (Inr [silenceAudio, silenceAudio], 2)
   \<and> length demoStamped = 2
   \<and> startTime (demoStamped ! 0) = 0
   \<and> endTime (demoStamped ! 0) = exact (startTime (demoStamped ! 0) + duration exact (buffer silenceAudio))
   \<and> endTime (demoStamped ! 1) = exact (startTime (demoStamped ! 1) + duration exact (buffer silenceAudio))
   \<and> endTime (demoStamped ! 0) = startTime (demoStamped ! Suc 0)
   \<and> channelData (buffer demoAudio) = channelData (buffer silenceAudio) @ channelData (buffer silenceAudio)"
proof -
  have len: "length demoStamped = 2" by (simp add: demoStamped_def)
  from sequenced_segments [OF demo_run] obtain audios where
    run: "unitAudios (failThenSucceed 0) atobStub (js ''Puck'') (js ''Kore'') (speechUnits demoSegments) 0
            = (Inr audios, 2)"
    and first: "startTime (demoStamped ! 0) = 0"
    and lasts: "\<forall>i<length demoStamped.
          endTime (demoStamped ! i) = exact (startTime (demoStamped ! i) + duration exact (buffer (audios ! i)))"
    and chain: "\<forall>i. Suc i < length demoStamped \<longrightarrow> endTime (demoStamped ! i) = startTime (demoStamped ! Suc i)"
    and data: "channelData (buffer demoAudio) = concat (map (\<lambda>a. channelData (buffer a)) audios)"
    by blast
  from run demo_units have audios: "audios = [silenceAudio, silenceAudio]" by simp
  from lasts len audios
  have l0: "endTime (demoStamped ! 0) = exact (startTime (demoStamped ! 0) + duration exact (buffer silenceAudio))"
    and l1: "endTime (demoStamped ! 1) = exact (startTime (demoStamped ! 1) + duration exact (buffer silenceAudio))"
    by simp_all
  from chain len have c0: "endTime (demoStamped ! 0) = startTime (demoStamped ! Suc 0)" by simp
  from data audios
  have d: "channelData (buffer demoAudio) = channelData (buffer silenceAudio) @ channelData (buffer silenceAudio)"
    by simp
  from demo_run demo_units len first l0 l1 c0 d show ?thesis by simp
qed

theorem blank_script_no_audio_witness:
  "list_all (\<lambda>s. trim (seg_text s) = []) blankSegments
   \<and> generateSequencedSpeech exact (failThenSucceed 0) atobStub blankSegments (js ''Puck'') (js ''Kore'') 0
       = (Inl (Error (js ''No audio generated.'')), 0)
   \<and> generateSequencedSpeech exact (failThenSucceed 0) atobStub [] (js ''Puck'') (js ''Kore'') 0
       = (Inl (Error (js ''No audio generated.'')), 0)"
proof -
  have b: "\<forall>s\<in>set blankSegments. trim (seg_text s) = []"
    by (simp add: blankSegments_def trim_empty_iff js_def isSpace_def)
  from blank_script_no_audio [OF b, of exact "failThenSucceed 0" atobStub "js ''Puck''" "js ''Kore''" 0]
    blank_script_no_audio [of "[]" exact "failThenSucceed 0" atobStub "js ''Puck''" "js ''Kore''" 0] b
  show ?thesis by (simp add: list_all_iff)
qed

section \<open>Properties of the PCM codec\<close>













section \<open>Properties of the synchronizer\<close>

lemma chained_nth:
  "chained t0 ss \<Longrightarrow> j < length ss \<Longrightarrow> t0 \<le> startTime (ss ! j) \<and> startTime (ss ! j) < endTime (ss ! j)"
proof (induction ss arbitrary: t0 j)
  case Nil
  then show ?case by simp
next
  case (Cons s ss)
  show ?case
  proof (cases j)
    case 0
    with Cons.prems show ?thesis by simp
  next
    case (Suc k)
    with Cons.prems Cons.IH [of "endTime s" k] show ?thesis by simp
  qed
qed

lemma chained_last:
  "chained t0 ss \<Longrightarrow> s \<in> set ss \<Longrightarrow> endTime s \<le> endTime (last ss)"
proof (induction ss arbitrary: t0 s)
  case Nil
  then show ?case by simp
next
  case (Cons a ss)
  note IH = Cons.IH and prems = Cons.prems
  show ?case
  proof (cases "ss = []")
    case True
    with prems show ?thesis by simp
  next
    case False
    have tail: "chained (endTime a) ss" using prems by simp
    have z: "0 < length ss" using False by simp
    have "endTime a \<le> endTime (last ss)"
    proof -
      have "endTime a \<le> startTime (ss ! 0) \<and> startTime (ss ! 0) < endTime (ss ! 0)"
        using chained_nth [OF tail z] .
      moreover have "endTime (ss ! 0) \<le> endTime (last ss)"
        using IH [OF tail, of "ss ! 0"] z by simp
      ultimately show ?thesis by simp
    qed
    moreover have "s \<in> set ss \<Longrightarrow> endTime s \<le> endTime (last ss)"
      using IH [OF tail, of s] by simp
    ultimately show ?thesis using prems(2) False by auto
  qed
qed

lemma chained_iff:
  "chained t0 segs \<longleftrightarrow>
     (segs \<noteq> [] \<longrightarrow> startTime (segs ! 0) = t0)
     \<and> (\<forall>i. Suc i < length segs \<longrightarrow> endTime (segs ! i) = startTime (segs ! Suc i))
     \<and> (\<forall>i<length segs. startTime (segs ! i) < endTime (segs ! i))"
proof (induction segs arbitrary: t0)
  case Nil
  show ?case by simp
next
  case (Cons s ss)
  have split_all: "(\<forall>i<length (s # ss). Q i) \<longleftrightarrow> Q 0 \<and> (\<forall>i<length ss. Q (Suc i))" for Q
    by (auto simp: less_Suc_eq_0_disj)
  have split_chain: "(\<forall>i. Suc i < length (s # ss) \<longrightarrow> R i)
      \<longleftrightarrow> (ss \<noteq> [] \<longrightarrow> R 0) \<and> (\<forall>i. Suc i < length ss \<longrightarrow> R (Suc i))" for R
  proof
    assume a: "\<forall>i. Suc i < length (s # ss) \<longrightarrow> R i"
    show "(ss \<noteq> [] \<longrightarrow> R 0) \<and> (\<forall>i. Suc i < length ss \<longrightarrow> R (Suc i))"
    proof (intro conjI impI allI)
      assume "ss \<noteq> []"
      then have "Suc 0 < length (s # ss)" by (cases ss) auto
      with a show "R 0" by blast
    next
      fix i assume "Suc i < length ss"
      then have "Suc (Suc i) < length (s # ss)" by simp
      with a show "R (Suc i)" by blast
    qed
  next
    assume b: "(ss \<noteq> [] \<longrightarrow> R 0) \<and> (\<forall>i. Suc i < length ss \<longrightarrow> R (Suc i))"
    show "\<forall>i. Suc i < length (s # ss) \<longrightarrow> R i"
    proof (intro allI impI)
      fix i assume i: "Suc i < length (s # ss)"
      show "R i"
      proof (cases i)
        case 0
        from i have "ss \<noteq> []" by auto
        with b 0 show ?thesis by simp
      next
        case (Suc j)
        with i b show ?thesis by simp
      qed
    qed
  qed
  show ?case
    unfolding chained.simps Cons.IH [of "endTime s"]
    by (subst split_all, subst split_chain) auto
qed

lemma contiguous_iff:
  "contiguous segs \<longleftrightarrow>
     (segs \<noteq> [] \<longrightarrow> startTime (segs ! 0) = 0)
     \<and> (\<forall>i. Suc i < length segs \<longrightarrow> endTime (segs ! i) = startTime (segs ! Suc i))
     \<and> (\<forall>i<length segs. startTime (segs ! i) < endTime (segs ! i))"
  unfolding contiguous_def by (rule chained_iff)

lemma findIndexFrom_none:
  "\<forall>s\<in>set xs. \<not> p s \<Longrightarrow> findIndexFrom p xs k = - 1"
  by (induction xs arbitrary: k) simp_all

lemma findIndexFrom_inside:
  assumes "chained t0 segs" and "i < length segs"
    and "startTime (segs ! i) \<le> t" and "t < endTime (segs ! i)"
  shows "findIndexFrom (\<lambda>seg. t \<ge> startTime seg \<and> t < endTime seg) segs k = int (k + i)"
  using assms
proof (induction segs arbitrary: t0 i k)
  case Nil
  then show ?case by simp
next
  case (Cons s ss)
  show ?case
  proof (cases i)
    case 0
    with Cons.prems show ?thesis by simp
  next
    case (Suc j)
    have tail: "chained (endTime s) ss" using Cons.prems(1) by simp
    have j: "j < length ss" using Cons.prems(2) Suc by simp
    from chained_nth [OF tail j] Cons.prems(3) Suc have "endTime s \<le> t" by simp
    then have "\<not> (t \<ge> startTime s \<and> t < endTime s)" by simp
    moreover have "findIndexFrom (\<lambda>seg. t \<ge> startTime seg \<and> t < endTime seg) ss (Suc k) = int (Suc k + j)"
      using tail j Cons.prems(3,4) Suc by (intro Cons.IH) simp_all
    ultimately show ?thesis using Suc by simp
  qed
qed

lemma chained_cover:
  "chained t0 segs \<Longrightarrow> segs \<noteq> [] \<Longrightarrow> t0 \<le> t \<Longrightarrow> t < endTime (last segs)
     \<Longrightarrow> \<exists>i<length segs. startTime (segs ! i) \<le> t \<and> t < endTime (segs ! i)"
proof (induction segs arbitrary: t0)
  case Nil
  then show ?case by simp
next
  case (Cons s ss)
  note IH = Cons.IH and prems = Cons.prems
  show ?case
  proof (cases "t < endTime s")
    case True
    with prems have "startTime ((s # ss) ! 0) \<le> t \<and> t < endTime ((s # ss) ! 0)" by simp
    then show ?thesis by blast
  next
    case False
    with prems have ne: "ss \<noteq> []" by auto
    have "chained (endTime s) ss" using prems by simp
    moreover have "endTime s \<le> t" using False by simp
    moreover have "t < endTime (last ss)" using prems ne by simp
    ultimately obtain j where "j < length ss" "startTime (ss ! j) \<le> t \<and> t < endTime (ss ! j)"
      using IH [of "endTime s"] ne by blast
    then have "Suc j < length (s # ss)
        \<and> startTime ((s # ss) ! Suc j) \<le> t \<and> t < endTime ((s # ss) ! Suc j)" by simp
    then show ?thesis by blast
  qed
qed

text \<open>
  Claim C8. For a non-empty contiguous segment list and an audio element playing at
  time \<open>t\<close>: when \<open>t\<close> lies in the half-open interval of segment \<open>i\<close>, the active segment
  becomes \<open>i\<close> and the active slide its slide index; when \<open>t\<close> is at or past the end of
  the last segment, they become the last index and its slide index; when \<open>t\<close> is
  negative, the lookup finds no segment (\<open>findIndex\<close> gives \<open>-1\<close>) and no index is
  written, so that the active segment and slide stay what they were, none at the
  start of playback. From time 0 on, an index of the list is always resolved.
\<close>

theorem synchronizer_lookup:
  assumes "segs \<noteq> []" and "contiguous segs" and "\<not> paused el" and "elemCurrentTime el = t"
  shows "(\<forall>i<length segs. startTime (segs ! i) \<le> t \<and> t < endTime (segs ! i)
            \<longrightarrow> activeSegmentIndex (updateSync segs (Some el) st) = int i
              \<and> activeSlideIndex (updateSync segs (Some el) st) = slideIndex (segs ! i))
       \<and> (endTime (last segs) \<le> t
            \<longrightarrow> activeSegmentIndex (updateSync segs (Some el) st) = int (length segs) - 1
              \<and> activeSlideIndex (updateSync segs (Some el) st) = slideIndex (last segs))
       \<and> (t < 0
            \<longrightarrow> findIndex (\<lambda>seg. t \<ge> startTime seg \<and> t < endTime seg) segs = - 1
              \<and> activeSegmentIndex (updateSync segs (Some el) st) = activeSegmentIndex st
              \<and> activeSlideIndex (updateSync segs (Some el) st) = activeSlideIndex st)
       \<and> (0 \<le> t
            \<longrightarrow> 0 \<le> activeSegmentIndex (updateSync segs (Some el) st)
              \<and> activeSegmentIndex (updateSync segs (Some el) st) < int (length segs))"
proof -
  have inside: "activeSegmentIndex (updateSync segs (Some el) st) = int i
      \<and> activeSlideIndex (updateSync segs (Some el) st) = slideIndex (segs ! i)"
    if i: "i < length segs" and within: "startTime (segs ! i) \<le> t \<and> t < endTime (segs ! i)" for i
  proof -
    have "findIndex (\<lambda>seg. t \<ge> startTime seg \<and> t < endTime seg) segs = int i"
      using findIndexFrom_inside [of 0 segs i t 0] assms(2) i within
      by (simp add: findIndex_def contiguous_def)
    then show ?thesis
      using assms(3,4) by (simp add: updateSync_def Let_def)
  qed
  have past: "activeSegmentIndex (updateSync segs (Some el) st) = int (length segs) - 1
      \<and> activeSlideIndex (updateSync segs (Some el) st) = slideIndex (last segs)"
    if over: "endTime (last segs) \<le> t"
  proof -
    have "\<forall>s\<in>set segs. \<not> (t \<ge> startTime s \<and> t < endTime s)"
      using chained_last [of 0 segs] assms(2) over by (fastforce simp: contiguous_def)
    then have none: "findIndex (\<lambda>seg. t \<ge> startTime seg \<and> t < endTime seg) segs = - 1"
      by (simp add: findIndex_def findIndexFrom_none)
    have l: "segs ! (length segs - 1) = last segs"
      using assms(1) by (simp add: last_conv_nth)
    show ?thesis
      using assms(1,3,4) none over l by (simp add: updateSync_def Let_def)
  qed
  have before: "findIndex (\<lambda>seg. t \<ge> startTime seg \<and> t < endTime seg) segs = - 1
      \<and> activeSegmentIndex (updateSync segs (Some el) st) = activeSegmentIndex st
      \<and> activeSlideIndex (updateSync segs (Some el) st) = activeSlideIndex st"
    if neg: "t < 0"
  proof -
    have starts: "\<forall>j<length segs. 0 \<le> startTime (segs ! j) \<and> startTime (segs ! j) < endTime (segs ! j)"
      using chained_nth [of 0 segs] assms(2) by (simp add: contiguous_def)
    have "\<forall>s\<in>set segs. \<not> (t \<ge> startTime s \<and> t < endTime s)"
    proof
      fix s assume "s \<in> set segs"
      then obtain j where "j < length segs" "s = segs ! j" by (auto simp: in_set_conv_nth)
      with starts neg show "\<not> (t \<ge> startTime s \<and> t < endTime s)" by fastforce
    qed
    then have none: "findIndex (\<lambda>seg. t \<ge> startTime seg \<and> t < endTime seg) segs = - 1"
      by (simp add: findIndex_def findIndexFrom_none)
    have "length segs - 1 < length segs" using assms(1) by simp
    with starts neg have early: "\<not> t \<ge> endTime (segs ! (length segs - 1))" by fastforce
    show ?thesis
      using assms(3,4) none early by (simp add: updateSync_def Let_def)
  qed
  have always: "0 \<le> activeSegmentIndex (updateSync segs (Some el) st)
      \<and> activeSegmentIndex (updateSync segs (Some el) st) < int (length segs)"
    if nn: "0 \<le> t"
  proof (cases "endTime (last segs) \<le> t")
    case True
    from past [OF True] assms(1) show ?thesis by (cases segs) auto
  next
    case False
    then have "t < endTime (last segs)" by simp
    with chained_cover [of 0 segs t] assms(1,2) nn
    obtain i where "i < length segs" "startTime (segs ! i) \<le> t \<and> t < endTime (segs ! i)"
      by (auto simp: contiguous_def)
    with inside [of i] show ?thesis by simp
  qed
  from inside past before always show ?thesis by blast
qed

lemma syncSegments_contiguous: "syncSegments \<noteq> [] \<and> contiguous syncSegments"
  by (simp add: syncSegments_def contiguous_def)

theorem synchronizer_lookup_witness:
  "syncSegments \<noteq> [] \<and> contiguous syncSegments \<and> length syncSegments = 2
   \<and> startTime (syncSegments ! 1) \<le> 3 \<and> 3 < endTime (syncSegments ! 1)
   \<and> activeSegmentIndex (updateSync syncSegments (Some (playingAt 3)) noneActive) = 1
   \<and> activeSlideIndex (updateSync syncSegments (Some (playingAt 3)) noneActive) = 3
   \<and> endTime (last syncSegments) \<le> 5
   \<and> activeSegmentIndex (updateSync syncSegments (Some (playingAt 5)) noneActive) = 1
   \<and> activeSlideIndex (updateSync syncSegments (Some (playingAt 5)) noneActive) = 3
   \<and> findIndex (\<lambda>seg. - 1 \<ge> startTime seg \<and> - 1 < endTime seg) syncSegments = - 1
   \<and> activeSegmentIndex (updateSync syncSegments (Some (playingAt (- 1))) noneActive) = - 1
   \<and> activeSlideIndex (updateSync syncSegments (Some (playingAt (- 1))) noneActive) = 0
   \<and> 0 \<le> activeSegmentIndex (updateSync syncSegments (Some (playingAt 1)) noneActive)
   \<and> activeSegmentIndex (updateSync syncSegments (Some (playingAt 1)) noneActive) < 2"
proof -
  have c: "syncSegments \<noteq> []" "contiguous syncSegments"
    using syncSegments_contiguous by simp_all
  have p: "\<not> paused (playingAt x)" "elemCurrentTime (playingAt x) = x" for x
    by (simp_all add: playingAt_def)
  have f: "length syncSegments = 2" "startTime (syncSegments ! 1) \<le> 3" "3 < endTime (syncSegments ! 1)"
    "endTime (last syncSegments) \<le> 5" "slideIndex (syncSegments ! 1) = 3"
    "slideIndex (last syncSegments) = 3"
    by (simp_all add: syncSegments_def)
  have s: "activeSegmentIndex noneActive = - 1" "activeSlideIndex noneActive = 0"
    by (simp_all add: noneActive_def)
  from synchronizer_lookup [OF c p, of 3 noneActive, THEN conjunct1, rule_format, of 1] f
  have a: "activeSegmentIndex (updateSync syncSegments (Some (playingAt 3)) noneActive) = 1
    \<and> activeSlideIndex (updateSync syncSegments (Some (playingAt 3)) noneActive) = 3" by simp
  from synchronizer_lookup [OF c p, of 5 noneActive, THEN conjunct2, THEN conjunct1] f
  have b: "activeSegmentIndex (updateSync syncSegments (Some (playingAt 5)) noneActive) = 1
    \<and> activeSlideIndex (updateSync syncSegments (Some (playingAt 5)) noneActive) = 3" by simp
  from synchronizer_lookup [OF c p, of "- 1" noneActive, THEN conjunct2, THEN conjunct2, THEN conjunct1] s
  have d: "findIndex (\<lambda>seg. - 1 \<ge> startTime seg \<and> - 1 < endTime seg) syncSegments = - 1
    \<and> activeSegmentIndex (updateSync syncSegments (Some (playingAt (- 1))) noneActive) = - 1
    \<and> activeSlideIndex (updateSync syncSegments (Some (playingAt (- 1))) noneActive) = 0" by simp
  from synchronizer_lookup [OF c p, of 1 noneActive, THEN conjunct2, THEN conjunct2, THEN conjunct2] f
  have e: "0 \<le> activeSegmentIndex (updateSync syncSegments (Some (playingAt 1)) noneActive)
    \<and> activeSegmentIndex (updateSync syncSegments (Some (playingAt 1)) noneActive) < 2" by simp
  from c f a b d e show ?thesis by simp
qed

section \<open>Properties of the segmenter\<close>

lemma chained_snoc:
  "chained t0 (xs @ [s]) \<longleftrightarrow>
     chained t0 xs \<and> startTime s = (if xs = [] then t0 else endTime (last xs)) \<and> startTime s < endTime s"
  by (induction xs arbitrary: t0) auto

lemma tiles_push:
  assumes "tiles segs t" and "0 < d"
  shows "tiles (segs @ [\<lparr>seg_id = i, slideIndex = k, speaker = spk, seg_text = x,
                         startTime = t, endTime = t + d\<rparr>]) (t + d)"
  using assms by (simp add: tiles_def chained_snoc)

lemma sentenceLoop_tiles:
  "tiles (segments st) (runningTime st)
     \<Longrightarrow> tiles (segments (sentenceLoop ids spk ss st)) (runningTime (sentenceLoop ids spk ss st))"
proof (induction ss arbitrary: st)
  case Nil
  then show ?case by simp
next
  case (Cons sentence rest)
  show ?case
  proof (cases "trim sentence = []")
    case True
    with Cons show ?thesis by simp
  next
    case False
    let ?d = "max (3 / 2) (real (length (trim sentence)) / 15)"
    let ?st = "st\<lparr>segments := segments st @
                  [\<lparr>seg_id = ids (length (segments st)), slideIndex = currentSlideIndex st,
                    speaker = spk, seg_text = trim sentence,
                    startTime = runningTime st, endTime = runningTime st + ?d\<rparr>],
                runningTime := runningTime st + ?d\<rparr>"
    have "0 < ?d" by simp
    from tiles_push [OF Cons.prems this]
    have "tiles (segments ?st) (runningTime ?st)" by simp
    from Cons.IH [OF this] False show ?thesis by (simp add: Let_def)
  qed
qed

lemma processLine_tiles:
  assumes "tiles (segments st) (runningTime st)"
  shows "tiles (segments (processLine uc ids hn en line st))
           (runningTime (processLine uc ids hn en line st))"
proof -
  have step: "tiles (segments (sentenceLoop ids s ss (st\<lparr>currentSpeaker := spk\<rparr>)))
                (runningTime (sentenceLoop ids s ss (st\<lparr>currentSpeaker := spk\<rparr>)))" for s ss spk
    using assms by (intro sentenceLoop_tiles) simp
  show ?thesis
    using assms step
    by (simp add: processLine_def Let_def split: option.split prod.split)
qed

lemma lineLoop_tiles:
  "tiles (segments st) (runningTime st)
     \<Longrightarrow> tiles (segments (lineLoop uc ids hn en ls st)) (runningTime (lineLoop uc ids hn en ls st))"
  by (induction ls arbitrary: st) (simp_all add: processLine_tiles)

lemma blockLoop_tiles:
  "tiles (segments st) (runningTime st)
     \<Longrightarrow> tiles (segments (blockLoop uc ids hn en bs st)) (runningTime (blockLoop uc ids hn en bs st))"
proof (induction bs arbitrary: st)
  case Nil
  then show ?case by simp
next
  case (Cons b bs)
  show ?case
  proof (cases "isPageNumber b")
    case True
    have "tiles (segments (st\<lparr>currentSlideIndex := pageIndex b\<rparr>))
            (runningTime (st\<lparr>currentSlideIndex := pageIndex b\<rparr>))"
      using Cons.prems by simp
    from Cons.IH [OF this] True show ?thesis by simp
  next
    case False
    from Cons.IH [OF lineLoop_tiles [OF Cons.prems]] False show ?thesis by simp
  qed
qed

lemma parse_contiguous: "contiguous (parseScriptToSegments uc ids fullText hostName expertName)"
proof -
  let ?st0 = "\<lparr>currentSlideIndex = 0, runningTime = 0, currentSpeaker = None, segments = []\<rparr>"
  have "tiles (segments ?st0) (runningTime ?st0)" by (simp add: tiles_def)
  from blockLoop_tiles [OF this] show ?thesis
    by (simp add: parseScriptToSegments_def tiles_def contiguous_def)
qed

text \<open>
  Claim C4. For every script text and every pair of display names (and whatever the
  case table and the identifiers), the segments returned by \<open>parseScriptToSegments\<close>
  are contiguous: a non-empty list starts at time 0, each segment's end time is the
  next segment's start time, and every end time is greater than its start time.
\<close>

theorem segmenter_contiguous:
  "(parseScriptToSegments uc ids fullText hostName expertName \<noteq> []
      \<longrightarrow> startTime (parseScriptToSegments uc ids fullText hostName expertName ! 0) = 0)
   \<and> (\<forall>i. Suc i < length (parseScriptToSegments uc ids fullText hostName expertName)
      \<longrightarrow> endTime (parseScriptToSegments uc ids fullText hostName expertName ! i)
          = startTime (parseScriptToSegments uc ids fullText hostName expertName ! Suc i))
   \<and> (\<forall>i<length (parseScriptToSegments uc ids fullText hostName expertName).
        startTime (parseScriptToSegments uc ids fullText hostName expertName ! i)
          < endTime (parseScriptToSegments uc ids fullText hostName expertName ! i))"
  using parse_contiguous [of uc ids fullText hostName expertName]
  unfolding contiguous_iff .

lemma slidesAscend_push:
  assumes "slidesAscend segs k"
  shows "slidesAscend (segs @ [\<lparr>seg_id = i, slideIndex = k, speaker = spk, seg_text = x,
                         startTime = a, endTime = b\<rparr>]) k"
  using assms by (auto simp: slidesAscend_def sorted_append list_all_iff)

lemma sentenceLoop_slides:
  "slidesAscend (segments st) (currentSlideIndex st)
     \<Longrightarrow> slidesAscend (segments (sentenceLoop ids spk ss st)) (currentSlideIndex st)
       \<and> currentSlideIndex (sentenceLoop ids spk ss st) = currentSlideIndex st"
proof (induction ss arbitrary: st)
  case Nil
  then show ?case by simp
next
  case (Cons sentence rest)
  show ?case
  proof (cases "trim sentence = []")
    case True
    with Cons show ?thesis by simp
  next
    case False
    let ?d = "max (3 / 2) (real (length (trim sentence)) / 15)"
    let ?st = "st\<lparr>segments := segments st @
                  [\<lparr>seg_id = ids (length (segments st)), slideIndex = currentSlideIndex st,
                    speaker = spk, seg_text = trim sentence,
                    startTime = runningTime st, endTime = runningTime st + ?d\<rparr>],
                runningTime := runningTime st + ?d\<rparr>"
    from slidesAscend_push [OF Cons.prems]
    have "slidesAscend (segments ?st) (currentSlideIndex ?st)" by simp
    from Cons.IH [OF this] False show ?thesis by (simp add: Let_def)
  qed
qed

lemma processLine_slides:
  assumes "slidesAscend (segments st) (currentSlideIndex st)"
  shows "slidesAscend (segments (processLine uc ids hn en line st)) (currentSlideIndex st)
       \<and> currentSlideIndex (processLine uc ids hn en line st) = currentSlideIndex st"
proof -
  have step: "slidesAscend (segments (sentenceLoop ids s ss (st\<lparr>currentSpeaker := spk\<rparr>))) (currentSlideIndex st)
       \<and> currentSlideIndex (sentenceLoop ids s ss (st\<lparr>currentSpeaker := spk\<rparr>)) = currentSlideIndex st"
    for s ss spk
    using assms sentenceLoop_slides [of "st\<lparr>currentSpeaker := spk\<rparr>" ids s ss] by simp
  show ?thesis
    using assms step
    by (simp add: processLine_def Let_def split: option.split prod.split)
qed

lemma lineLoop_slides:
  "slidesAscend (segments st) (currentSlideIndex st)
     \<Longrightarrow> slidesAscend (segments (lineLoop uc ids hn en ls st)) (currentSlideIndex st)
       \<and> currentSlideIndex (lineLoop uc ids hn en ls st) = currentSlideIndex st"
proof (induction ls arbitrary: st)
  case Nil
  then show ?case by simp
next
  case (Cons l ls)
  from processLine_slides [OF Cons.prems, of uc ids hn en l]
  have p: "slidesAscend (segments (processLine uc ids hn en l st))
             (currentSlideIndex (processLine uc ids hn en l st))"
    and k: "currentSlideIndex (processLine uc ids hn en l st) = currentSlideIndex st"
    by simp_all
  from Cons.IH [OF p] k show ?case by simp
qed

lemma slidesAscend_raise: "slidesAscend segs k \<Longrightarrow> k \<le> k' \<Longrightarrow> slidesAscend segs k'"
  by (auto simp: slidesAscend_def list_all_iff)

lemma blockLoop_slides:
  assumes "slidesAscend (segments st) (currentSlideIndex st)"
    and "sorted (currentSlideIndex st # map pageIndex (filter isPageNumber bs))"
  shows "sorted (map slideIndex (segments (blockLoop uc ids hn en bs st)))"
  using assms
proof (induction bs arbitrary: st)
  case Nil
  then show ?case by (simp add: slidesAscend_def)
next
  case (Cons b bs)
  show ?case
  proof (cases "isPageNumber b")
    case True
    let ?st = "st\<lparr>currentSlideIndex := pageIndex b\<rparr>"
    from Cons.prems(2) True have le: "currentSlideIndex st \<le> pageIndex b"
      and rest: "sorted (pageIndex b # map pageIndex (filter isPageNumber bs))"
      by simp_all
    have "slidesAscend (segments ?st) (currentSlideIndex ?st)"
      using slidesAscend_raise [OF Cons.prems(1) le] by simp
    moreover have "sorted (currentSlideIndex ?st # map pageIndex (filter isPageNumber bs))"
      using rest by simp
    ultimately have "sorted (map slideIndex (segments (blockLoop uc ids hn en bs ?st)))"
      by (rule Cons.IH)
    with True show ?thesis by simp
  next
    case False
    let ?st = "lineLoop uc ids hn en (splitLines b) st"
    from lineLoop_slides [OF Cons.prems(1), of uc ids hn en "splitLines b"]
    have a: "slidesAscend (segments ?st) (currentSlideIndex ?st)"
      and k: "currentSlideIndex ?st = currentSlideIndex st" by simp_all
    have "sorted (currentSlideIndex ?st # map pageIndex (filter isPageNumber bs))"
      using Cons.prems(2) False k by simp
    with a have "sorted (map slideIndex (segments (blockLoop uc ids hn en bs ?st)))"
      by (rule Cons.IH)
    with False show ?thesis by simp
  qed
qed

text \<open>
  Claim C9, as the code has it. The parser sets the slide index from each page number
  it reads, whatever the earlier ones were. When the slide indices \<open>max(0, n - 1)\<close> of
  the page numbers \<open>n\<close> read from the script, in their order, never decrease, the slide
  indices of the returned segments never decrease either.
\<close>

theorem segmenter_slides_ascend:
  assumes "sorted (map pageIndex (filter isPageNumber (splitSlides uc fullText)))"
  shows "\<forall>i. Suc i < length (parseScriptToSegments uc ids fullText hostName expertName)
           \<longrightarrow> slideIndex (parseScriptToSegments uc ids fullText hostName expertName ! i)
               \<le> slideIndex (parseScriptToSegments uc ids fullText hostName expertName ! Suc i)"
proof -
  let ?st0 = "\<lparr>currentSlideIndex = 0, runningTime = 0, currentSpeaker = None, segments = []\<rparr>"
  have "slidesAscend (segments ?st0) (currentSlideIndex ?st0)" by (simp add: slidesAscend_def)
  moreover have "sorted (currentSlideIndex ?st0 # map pageIndex (filter isPageNumber (splitSlides uc fullText)))"
    using assms by simp
  ultimately have "sorted (map slideIndex (parseScriptToSegments uc ids fullText hostName expertName))"
    unfolding parseScriptToSegments_def by (rule blockLoop_slides)
  then show ?thesis
    by (auto simp: sorted_iff_nth_Suc)
qed

lemma canonicalize_ascii:
  "c < 128 \<Longrightarrow> canonicalize uc c = (if 97 \<le> c \<and> c \<le> 122 then c - 32 else c)"
  by (simp add: canonicalize_def)

lemmas segmenter_eval =
  js_def isPageNumber_def pageIndex_def parseInt10_def isDigit_def processLine_def
  trim_def isSpace_def matchLabel_def matchSlideMarker_def optStars_def canonicalize_ascii
  List.map_filter_simps splitSentences_def matchSentenceBreak_def isTerminator_def Let_def

lemma demo_split:
  "splitSlides uc demoText =
     [[], js ''1'',
      js ([CHR 0x0A] @ ''Host: Hello. Welcome.'' @ [CHR 0x0A] @ ''Expert: Hi there.'' @ [CHR 0x0A]),
      js ''2'',
      js ([CHR 0x0A] @ ''Host: Let's continue.'')]"
  by (simp add: splitSlides_def demoText_def segmenter_eval)

lemma demo_parse:
  "parseScriptToSegments uc ids demoText (js ''Host'') (js ''Expert'') =
    [\<lparr>seg_id = ids 0, slideIndex = 0, speaker = Host, seg_text = js ''Hello.'', startTime = 0, endTime = 3 / 2\<rparr>,
     \<lparr>seg_id = ids 1, slideIndex = 0, speaker = Host, seg_text = js ''Welcome.'', startTime = 3 / 2, endTime = 3\<rparr>,
     \<lparr>seg_id = ids 2, slideIndex = 0, speaker = Expert, seg_text = js ''Hi there.'', startTime = 3, endTime = 9 / 2\<rparr>,
     \<lparr>seg_id = ids 3, slideIndex = 1, speaker = Host, seg_text = js ''Let's continue.'', startTime = 9 / 2, endTime = 6\<rparr>]"
  unfolding parseScriptToSegments_def demo_split
  by (simp add: segmenter_eval) (simp add: numeral_2_eq_2 numeral_3_eq_3)

lemma backward_parse:
  "parseScriptToSegments uc ids backwardText (js ''Host'') (js ''Expert'') =
    [\<lparr>seg_id = ids 0, slideIndex = 1, speaker = Host, seg_text = js ''Two.'', startTime = 0, endTime = 3 / 2\<rparr>,
     \<lparr>seg_id = ids 1, slideIndex = 0, speaker = Host, seg_text = js ''One.'', startTime = 3 / 2, endTime = 3\<rparr>]"
  by (simp add: parseScriptToSegments_def splitSlides_def backwardText_def segmenter_eval)

text \<open>
  Claim C6. For the script of the scenario with the display names \<open>Host\<close> and
  \<open>Expert\<close>, the segmenter returns exactly the four segments (slide 0, Host,
  \<open>Hello.\<close>), (slide 0, Host, \<open>Welcome.\<close>), (slide 0, Expert, \<open>Hi there.\<close>) and
  (slide 1, Host, \<open>Let's continue.\<close>), in that order; merging them gives exactly three
  units, the first being the host's \<open>Hello. Welcome.\<close> on slide 0; and with a provider
  that answers every request with audio the sequencer issues exactly three requests.
\<close>

theorem demo_scenario:
  "parseScriptToSegments uc ids demoText (js ''Host'') (js ''Expert'') =
    [\<lparr>seg_id = ids 0, slideIndex = 0, speaker = Host, seg_text = js ''Hello.'', startTime = 0, endTime = 3 / 2\<rparr>,
     \<lparr>seg_id = ids 1, slideIndex = 0, speaker = Host, seg_text = js ''Welcome.'', startTime = 3 / 2, endTime = 3\<rparr>,
     \<lparr>seg_id = ids 2, slideIndex = 0, speaker = Expert, seg_text = js ''Hi there.'', startTime = 3, endTime = 9 / 2\<rparr>,
     \<lparr>seg_id = ids 3, slideIndex = 1, speaker = Host, seg_text = js ''Let's continue.'', startTime = 9 / 2, endTime = 6\<rparr>]
   \<and> mergeSegments (parseScriptToSegments uc ids demoText (js ''Host'') (js ''Expert'')) =
    [\<lparr>seg_id = ids 0, slideIndex = 0, speaker = Host, seg_text = js ''Hello. Welcome.'', startTime = 0, endTime = 3 / 2\<rparr>,
     \<lparr>seg_id = ids 2, slideIndex = 0, speaker = Expert, seg_text = js ''Hi there.'', startTime = 3, endTime = 9 / 2\<rparr>,
     \<lparr>seg_id = ids 3, slideIndex = 1, speaker = Host, seg_text = js ''Let's continue.'', startTime = 9 / 2, endTime = 6\<rparr>]
   \<and> snd (generateSequencedSpeech rd (failThenSucceed 0) atobStub
          (parseScriptToSegments uc ids demoText (js ''Host'') (js ''Expert'')) hostVoice expertVoice 0) = 3"
proof (intro conjI)
  let ?segs = "parseScriptToSegments uc ids demoText (js ''Host'') (js ''Expert'')"
  let ?units =
    "[\<lparr>seg_id = ids 0, slideIndex = 0, speaker = Host, seg_text = js ''Hello. Welcome.'', startTime = 0, endTime = 3 / 2\<rparr>,
      \<lparr>seg_id = ids 2, slideIndex = 0, speaker = Expert, seg_text = js ''Hi there.'', startTime = 3, endTime = 9 / 2\<rparr>,
      \<lparr>seg_id = ids 3, slideIndex = 1, speaker = Host, seg_text = js ''Let's continue.'', startTime = 9 / 2, endTime = 6\<rparr>]"
  show "?segs =
    [\<lparr>seg_id = ids 0, slideIndex = 0, speaker = Host, seg_text = js ''Hello.'', startTime = 0, endTime = 3 / 2\<rparr>,
     \<lparr>seg_id = ids 1, slideIndex = 0, speaker = Host, seg_text = js ''Welcome.'', startTime = 3 / 2, endTime = 3\<rparr>,
     \<lparr>seg_id = ids 2, slideIndex = 0, speaker = Expert, seg_text = js ''Hi there.'', startTime = 3, endTime = 9 / 2\<rparr>,
     \<lparr>seg_id = ids 3, slideIndex = 1, speaker = Host, seg_text = js ''Let's continue.'', startTime = 9 / 2, endTime = 6\<rparr>]"
    by (rule demo_parse)
  show merged: "mergeSegments ?segs = ?units"
    unfolding demo_parse by (simp add: mergeSegments_def js_def)
  have blank: "trim (js ''Hello. Welcome.'') \<noteq> []" "trim (js ''Hi there.'') \<noteq> []"
    "trim (js ''Let's continue.'') \<noteq> []"
    by (simp_all add: trim_empty_iff js_def isSpace_def)
  have "\<exists>bufs fin. bufs \<noteq> []
          \<and> sequenceLoop rd (failThenSucceed 0) atobStub hostVoice expertVoice ?units [] [] 0 0
              = (Inr (bufs, fin), 3)"
    by (simp add: blank generateSingleSpeakerAudio_silence Let_def)
  then obtain bufs fin where ne: "bufs \<noteq> []"
    and run: "sequenceLoop rd (failThenSucceed 0) atobStub hostVoice expertVoice ?units [] [] 0 0
              = (Inr (bufs, fin), 3)"
    by blast
  show "snd (generateSequencedSpeech rd (failThenSucceed 0) atobStub ?segs hostVoice expertVoice 0) = 3"
    unfolding generateSequencedSpeech_def merged run
    using ne by (simp split: sum.split)
qed

theorem segmenter_contiguous_witness:
  "parseScriptToSegments noCase serialIds demoText (js ''Host'') (js ''Expert'') \<noteq> []
   \<and> startTime (parseScriptToSegments noCase serialIds demoText (js ''Host'') (js ''Expert'') ! 0) = 0
   \<and> Suc 2 < length (parseScriptToSegments noCase serialIds demoText (js ''Host'') (js ''Expert''))
   \<and> endTime (parseScriptToSegments noCase serialIds demoText (js ''Host'') (js ''Expert'') ! 2)
       = startTime (parseScriptToSegments noCase serialIds demoText (js ''Host'') (js ''Expert'') ! Suc 2)
   \<and> startTime (parseScriptToSegments noCase serialIds demoText (js ''Host'') (js ''Expert'') ! 3)
       < endTime (parseScriptToSegments noCase serialIds demoText (js ''Host'') (js ''Expert'') ! 3)"
proof -
  let ?segs = "parseScriptToSegments noCase serialIds demoText (js ''Host'') (js ''Expert'')"
  have len: "length ?segs = 4" by (simp add: demo_parse)
  then have ne: "?segs \<noteq> []" by auto
  note c = segmenter_contiguous [of noCase serialIds demoText "js ''Host''" "js ''Expert''"]
  from c ne have first: "startTime (?segs ! 0) = 0" by blast
  from c len have chain: "endTime (?segs ! 2) = startTime (?segs ! Suc 2)" by simp
  from c len have pos: "startTime (?segs ! 3) < endTime (?segs ! 3)" by simp
  from ne first len chain pos show ?thesis by simp
qed

theorem segmenter_slides_ascend_witness:
  "sorted (map pageIndex (filter isPageNumber (splitSlides noCase demoText)))
   \<and> Suc 2 < length (parseScriptToSegments noCase serialIds demoText (js ''Host'') (js ''Expert''))
   \<and> slideIndex (parseScriptToSegments noCase serialIds demoText (js ''Host'') (js ''Expert'') ! 2)
       \<le> slideIndex (parseScriptToSegments noCase serialIds demoText (js ''Host'') (js ''Expert'') ! Suc 2)
   \<and> slideIndex (parseScriptToSegments noCase serialIds demoText (js ''Host'') (js ''Expert'') ! 2) = 0
   \<and> slideIndex (parseScriptToSegments noCase serialIds demoText (js ''Host'') (js ''Expert'') ! Suc 2) = 1"
proof -
  let ?segs = "parseScriptToSegments noCase serialIds demoText (js ''Host'') (js ''Expert'')"
  have h: "sorted (map pageIndex (filter isPageNumber (splitSlides noCase demoText)))"
    unfolding demo_split by (simp add: segmenter_eval)
  have len: "Suc 2 < length ?segs" by (simp add: demo_parse)
  from segmenter_slides_ascend [OF h, of serialIds "js ''Host''" "js ''Expert''"] len
  have "slideIndex (?segs ! 2) \<le> slideIndex (?segs ! Suc 2)" by blast
  moreover have "slideIndex (?segs ! 2) = 0" "slideIndex (?segs ! Suc 2) = 1"
    by (simp_all add: demo_parse)
  ultimately show ?thesis using h len by simp
qed

text \<open>
  A script whose second marker is \<open>[SLIDE 1]\<close> after \<open>[SLIDE 2]\<close>: the slide indices of
  its two segments are 1 and then 0.
\<close>

theorem segmenter_slides_ascend_counterexample:
  "length (parseScriptToSegments noCase serialIds backwardText (js ''Host'') (js ''Expert'')) = 2
   \<and> slideIndex (parseScriptToSegments noCase serialIds backwardText (js ''Host'') (js ''Expert'') ! 0) = 1
   \<and> slideIndex (parseScriptToSegments noCase serialIds backwardText (js ''Host'') (js ''Expert'') ! 1) = 0"
  by (simp add: backward_parse)

end
